theory Spec2Isabelle
  imports Main
begin

section \<open>Values, effects and the Task structure\<close>

text \<open>
  A JavaScript call both has an effect and returns a value, and it may throw. A call is
  modelled as a function of the state it acts on, giving the thrown error or the returned
  value together with the state it leaves.
\<close>

datatype error = ReferenceError string | TypeError string

type_synonym ('w, 'a) act = "'w \<Rightarrow> (error + 'a) \<times> 'w"

text \<open>
  What a fork returns (its run-state) is an untyped JavaScript value. The combinators only
  ever build it from four shapes: \<open>undefined\<close>, a handle made by a fork procedure of the
  user, the argument of a continuation handed back as it came, and a two-element array.
\<close>

datatype 'h rstate = Undefined | Handle 'h | Passed | Pair "'h rstate" "'h rstate"

text \<open>One call of a continuation: the channel and the value.\<close>

datatype ('e, 'v) settlement = Failure 'e | Success 'v

text \<open>
  \<open>function Task(computation, cleanup)\<close>: \<open>fork\<close> takes the two continuations;
  \<open>'k\<close> is what a continuation call, and so the fork call, amounts to.
\<close>

record ('e, 'v, 'k, 'r, 'c) Task =
  fork :: "('e \<Rightarrow> 'k) \<Rightarrow> ('v \<Rightarrow> 'k) \<Rightarrow> 'k"
  cleanup :: "'r \<Rightarrow> 'c"

text \<open>The default cleanup \<open>function() {}\<close>.\<close>

definition noop :: "'r \<Rightarrow> ('c, unit) act" where
  "noop s = (\<lambda>c. (Inr (), c))"

definition Task_of :: "'v \<Rightarrow> ('e, 'v, 'k, 'r, ('c, unit) act) Task" where
  "Task_of b = \<lparr> fork = (\<lambda>_ resolve. resolve b), cleanup = noop \<rparr>"

definition Task_rejected :: "'e \<Rightarrow> ('e, 'v, 'k, 'r, ('c, unit) act) Task" where
  "Task_rejected a = \<lparr> fork = (\<lambda>reject _. reject a), cleanup = noop \<rparr>"

definition Task_empty :: "('e, 'v, ('w, 'h rstate) act, 'r, ('c, unit) act) Task" where
  "Task_empty = \<lparr> fork = (\<lambda>_ _ w. (Inr Undefined, w)), cleanup = noop \<rparr>"

section \<open>Sequential transformers\<close>

definition Task_map ::
  "('e, 'b, 'k, 'r, 'c) Task \<Rightarrow> ('b \<Rightarrow> 'g) \<Rightarrow> ('e, 'g, 'k, 'r, 'c) Task" where
  "Task_map this f =
     \<lparr> fork = (\<lambda>reject resolve.
         fork this (\<lambda>a. reject a) (\<lambda>b. resolve (f b))),
       cleanup = cleanup this \<rparr>"

definition chain ::
  "('e, 'b, 'k, 'r, 'c) Task \<Rightarrow> ('b \<Rightarrow> ('e, 'g, 'k, 'r2, 'c2) Task)
     \<Rightarrow> ('e, 'g, 'k, 'r, 'c) Task" where
  "chain this f =
     \<lparr> fork = (\<lambda>reject resolve.
         fork this (\<lambda>a. reject a) (\<lambda>b. fork (f b) reject resolve)),
       cleanup = cleanup this \<rparr>"

definition orElse ::
  "('e, 'b, 'k, 'r, 'c) Task \<Rightarrow> ('e \<Rightarrow> ('g, 'b, 'k, 'r2, 'c2) Task)
     \<Rightarrow> ('g, 'b, 'k, 'r, 'c) Task" where
  "orElse this f =
     \<lparr> fork = (\<lambda>reject resolve.
         fork this (\<lambda>a. fork (f a) reject resolve) (\<lambda>b. resolve b)),
       cleanup = cleanup this \<rparr>"

definition Task_fold ::
  "('e, 'b, 'k, 'r, 'c) Task \<Rightarrow> ('e \<Rightarrow> 'g) \<Rightarrow> ('b \<Rightarrow> 'g) \<Rightarrow> ('d, 'g, 'k, 'r, 'c) Task" where
  "Task_fold this f g =
     \<lparr> fork = (\<lambda>reject resolve.
         fork this (\<lambda>a. resolve (f a)) (\<lambda>b. resolve (g b))),
       cleanup = cleanup this \<rparr>"

record ('e, 'b, 'g) pattern =
  Rejected :: "'e \<Rightarrow> 'g"
  Resolved :: "'b \<Rightarrow> 'g"

definition cata ::
  "('e, 'b, 'k, 'r, 'c) Task \<Rightarrow> ('e, 'b, 'g) pattern \<Rightarrow> ('d, 'g, 'k, 'r, 'c) Task" where
  "cata this p = Task_fold this (Rejected p) (Resolved p)"

definition Task_swap :: "('e, 'b, 'k, 'r, 'c) Task \<Rightarrow> ('b, 'e, 'k, 'r, 'c) Task" where
  "Task_swap this =
     \<lparr> fork = (\<lambda>reject resolve.
         fork this (\<lambda>a. resolve a) (\<lambda>b. reject b)),
       cleanup = cleanup this \<rparr>"

definition bimap ::
  "('e, 'b, 'k, 'r, 'c) Task \<Rightarrow> ('e \<Rightarrow> 'g) \<Rightarrow> ('b \<Rightarrow> 'd) \<Rightarrow> ('g, 'd, 'k, 'r, 'c) Task" where
  "bimap this f g =
     \<lparr> fork = (\<lambda>reject resolve.
         fork this (\<lambda>a. reject (f a)) (\<lambda>b. resolve (g b))),
       cleanup = cleanup this \<rparr>"

definition rejectedMap ::
  "('e, 'b, 'k, 'r, 'c) Task \<Rightarrow> ('e \<Rightarrow> 'g) \<Rightarrow> ('g, 'b, 'k, 'r, 'c) Task" where
  "rejectedMap this f =
     \<lparr> fork = (\<lambda>reject resolve.
         fork this (\<lambda>a. reject (f a)) (\<lambda>b. resolve b)),
       cleanup = cleanup this \<rparr>"

section \<open>Sequencing calls\<close>

definition returns :: "'a \<Rightarrow> ('w, 'a) act" where
  "returns a = (\<lambda>w. (Inr a, w))"

definition raise :: "error \<Rightarrow> ('w, 'a) act" where
  "raise e = (\<lambda>w. (Inl e, w))"

text \<open>One statement after another: a throw in the first skips the second.\<close>

definition and_then :: "('w, 'a) act \<Rightarrow> ('a \<Rightarrow> ('w, 'b) act) \<Rightarrow> ('w, 'b) act" where
  "and_then m k = (\<lambda>w. case m w of (Inl e, w') \<Rightarrow> (Inl e, w') | (Inr a, w') \<Rightarrow> k a w')"

section \<open>Parallel join: \<open>ap\<close>\<close>

text \<open>
  The variables one execution of the fork of \<open>this.ap(that)\<close> closes over. \<open>func\<close> and
  \<open>val\<close> are \<open>None\<close> while still \<open>undefined\<close>. \<open>scheduled\<close> counts the closures
  \<open>function(){ cleanupBoth(allState) }\<close> handed to \<open>delayed\<close> and not yet run; they all
  read \<open>allState\<close> when they run. \<open>outer\<close> is the state the continuations given to the
  fork act on.
\<close>

record ('f, 'v, 'h, 'o) ap_frame =
  func :: "'f option"
  funcLoaded :: bool
  val :: "'v option"
  valLoaded :: bool
  rejected :: bool
  allState :: "'h rstate"
  scheduled :: nat
  outer :: 'o

definition ap_new_frame :: "'o \<Rightarrow> ('f, 'v, 'h, 'o) ap_frame" where
  "ap_new_frame w = \<lparr> func = None, funcLoaded = False, val = None, valLoaded = False,
     rejected = False, allState = Undefined, scheduled = 0, outer = w \<rparr>"

text \<open>A call of a continuation of the enclosing fork, made from inside the closure.\<close>

definition ap_outer_call ::
  "('o, 'a) act \<Rightarrow> (('f, 'v, 'h, 'o) ap_frame, 'a) act" where
  "ap_outer_call k = (\<lambda>fr. case k (outer fr) of (r, w') \<Rightarrow> (r, fr\<lparr> outer := w' \<rparr>))"

text \<open>
  \<open>cleanupBoth(state)\<close> reads \<open>state[0]\<close> and \<open>state[1]\<close>. Indexing \<open>undefined\<close>
  throws; a handle or a passed value is taken to have no such elements, so that both reads
  give \<open>undefined\<close>.
\<close>

definition cleanupBoth ::
  "('h rstate \<Rightarrow> ('c, unit) act) \<Rightarrow> ('h rstate \<Rightarrow> ('c, unit) act)
     \<Rightarrow> 'h rstate \<Rightarrow> ('c, unit) act" where
  "cleanupBoth cleanupThis cleanupThat state =
     (case state of
        Pair s0 s1 \<Rightarrow> and_then (cleanupThis s0) (\<lambda>_. cleanupThat s1)
      | Undefined \<Rightarrow> raise (TypeError ''state is undefined'')
      | _ \<Rightarrow> and_then (cleanupThis Undefined) (\<lambda>_. cleanupThat Undefined))"

text \<open>The two setters passed to \<open>guardResolve\<close>.\<close>

definition setFunc :: "'f \<Rightarrow> ('f, 'v, 'h, 'o) ap_frame \<Rightarrow> ('f, 'v, 'h, 'o) ap_frame" where
  "setFunc x fr = fr\<lparr> funcLoaded := True, func := Some x \<rparr>"

definition setVal :: "'v \<Rightarrow> ('f, 'v, 'h, 'o) ap_frame \<Rightarrow> ('f, 'v, 'h, 'o) ap_frame" where
  "setVal x fr = fr\<lparr> valLoaded := True, val := Some x \<rparr>"

text \<open>
  \<open>guardResolve(setter)\<close>. Its \<open>return x\<close> hands the argument back, which is
  \<open>Passed\<close>. The types make \<open>func\<close> a function; the \<open>TypeError\<close> is what calling an
  \<open>undefined\<close> \<open>func\<close> would throw.
\<close>

definition guardResolve ::
  "('s \<Rightarrow> ('o, 'h rstate) act)
     \<Rightarrow> ('x \<Rightarrow> ('v \<Rightarrow> 's, 'v, 'h, 'o) ap_frame \<Rightarrow> ('v \<Rightarrow> 's, 'v, 'h, 'o) ap_frame)
     \<Rightarrow> 'x \<Rightarrow> (('v \<Rightarrow> 's, 'v, 'h, 'o) ap_frame, 'h rstate) act" where
  "guardResolve resolve setter x = (\<lambda>fr.
     if rejected fr then (Inr Undefined, fr)
     else
       let fr1 = setter x fr in
       if funcLoaded fr1 \<and> valLoaded fr1 then
         let fr2 = fr1\<lparr> scheduled := scheduled fr1 + 1 \<rparr> in
         (case (func fr2, val fr2) of
            (Some f, Some v) \<Rightarrow> ap_outer_call (resolve (f v)) fr2
          | _ \<Rightarrow> (Inl (TypeError ''func is not a function''), fr2))
       else (Inr Passed, fr1))"

definition guardReject ::
  "('e \<Rightarrow> ('o, 'h rstate) act) \<Rightarrow> 'e \<Rightarrow> (('f, 'v, 'h, 'o) ap_frame, 'h rstate) act" where
  "guardReject reject x = (\<lambda>fr.
     if \<not> rejected fr then ap_outer_call (reject x) (fr\<lparr> rejected := True \<rparr>)
     else (Inr Undefined, fr))"

text \<open>
  The body of the fork of \<open>this.ap(that)\<close>, on a fresh frame: what it returns and the frame
  it leaves, which the continuations it handed out keep acting on.
\<close>

definition ap_body ::
  "(('e \<Rightarrow> (('v \<Rightarrow> 's, 'v, 'h, 'o) ap_frame, 'h rstate) act)
      \<Rightarrow> (('v \<Rightarrow> 's) \<Rightarrow> (('v \<Rightarrow> 's, 'v, 'h, 'o) ap_frame, 'h rstate) act)
      \<Rightarrow> (('v \<Rightarrow> 's, 'v, 'h, 'o) ap_frame, 'h rstate) act)
   \<Rightarrow> (('e \<Rightarrow> (('v \<Rightarrow> 's, 'v, 'h, 'o) ap_frame, 'h rstate) act)
      \<Rightarrow> ('v \<Rightarrow> (('v \<Rightarrow> 's, 'v, 'h, 'o) ap_frame, 'h rstate) act)
      \<Rightarrow> (('v \<Rightarrow> 's, 'v, 'h, 'o) ap_frame, 'h rstate) act)
   \<Rightarrow> ('e \<Rightarrow> ('o, 'h rstate) act) \<Rightarrow> ('s \<Rightarrow> ('o, 'h rstate) act)
   \<Rightarrow> (('v \<Rightarrow> 's, 'v, 'h, 'o) ap_frame, 'h rstate) act" where
  "ap_body forkThis forkThat reject resolve =
     and_then (forkThis (guardReject reject) (guardResolve resolve setFunc)) (\<lambda>thisState.
     and_then (forkThat (guardReject reject) (guardResolve resolve setVal)) (\<lambda>thatState.
       (\<lambda>fr. (Inr (Pair thisState thatState), fr\<lparr> allState := Pair thisState thatState \<rparr>))))"

text \<open>
  \<open>this.ap(that)\<close>. To the caller of its fork, a call is the run-state returned and what
  the continuations did to the state they act on. The frame itself stays with the closures
  the fork handed out; \<open>ap_run\<close> below keeps it to follow the later turns. A closure
  still pending when the fork returns is therefore not seen by an enclosing run, when the
  Task is itself an input of another \<open>ap\<close> or \<open>concat\<close>.
\<close>

definition ap ::
  "('e, 'v \<Rightarrow> 's, (('v \<Rightarrow> 's, 'v, 'h, 'o) ap_frame, 'h rstate) act, 'h rstate, ('c, unit) act) Task
   \<Rightarrow> ('e, 'v, (('v \<Rightarrow> 's, 'v, 'h, 'o) ap_frame, 'h rstate) act, 'h rstate, ('c, unit) act) Task
   \<Rightarrow> ('e, 's, ('o, 'h rstate) act, 'h rstate, ('c, unit) act) Task" where
  "ap this that =
     \<lparr> fork = (\<lambda>reject resolve w.
         case ap_body (fork this) (fork that) reject resolve (ap_new_frame w) of
           (r, fr) \<Rightarrow> (r, outer fr)),
       cleanup = cleanupBoth (cleanup this) (cleanup that) \<rparr>"

section \<open>Race: \<open>concat\<close>\<close>

text \<open>
  The variables one execution of the fork of \<open>this.concat(that)\<close> closes over:
  \<open>done\<close>, \<open>allState\<close>, the closures handed to \<open>delayed\<close> and not yet run, and the
  state the continuations given to the fork act on.
\<close>

record ('h, 'o) concat_frame =
  is_done :: bool
  allState_c :: "'h rstate"
  scheduled_c :: nat
  outer_c :: 'o

definition concat_new_frame :: "'o \<Rightarrow> ('h, 'o) concat_frame" where
  "concat_new_frame w =
     \<lparr> is_done = False, allState_c = Undefined, scheduled_c = 0, outer_c = w \<rparr>"

definition concat_outer_call :: "('o, 'a) act \<Rightarrow> (('h, 'o) concat_frame, 'a) act" where
  "concat_outer_call k = (\<lambda>fr. case k (outer_c fr) of (r, w') \<Rightarrow> (r, fr\<lparr> outer_c := w' \<rparr>))"

definition guard ::
  "('x \<Rightarrow> ('o, 'h rstate) act) \<Rightarrow> 'x \<Rightarrow> (('h, 'o) concat_frame, 'h rstate) act" where
  "guard f x = (\<lambda>fr.
     if \<not> is_done fr then
       concat_outer_call (f x) (fr\<lparr> is_done := True, scheduled_c := scheduled_c fr + 1 \<rparr>)
     else (Inr Undefined, fr))"

definition concat_body ::
  "(('e \<Rightarrow> (('h, 'o) concat_frame, 'h rstate) act)
      \<Rightarrow> ('v \<Rightarrow> (('h, 'o) concat_frame, 'h rstate) act)
      \<Rightarrow> (('h, 'o) concat_frame, 'h rstate) act)
   \<Rightarrow> (('e \<Rightarrow> (('h, 'o) concat_frame, 'h rstate) act)
      \<Rightarrow> ('v \<Rightarrow> (('h, 'o) concat_frame, 'h rstate) act)
      \<Rightarrow> (('h, 'o) concat_frame, 'h rstate) act)
   \<Rightarrow> ('e \<Rightarrow> ('o, 'h rstate) act) \<Rightarrow> ('v \<Rightarrow> ('o, 'h rstate) act)
   \<Rightarrow> (('h, 'o) concat_frame, 'h rstate) act" where
  "concat_body forkThis forkThat reject resolve =
     and_then (forkThis (guard reject) (guard resolve)) (\<lambda>thisState.
     and_then (forkThat (guard reject) (guard resolve)) (\<lambda>thatState.
       (\<lambda>fr. (Inr (Pair thisState thatState), fr\<lparr> allState_c := Pair thisState thatState \<rparr>))))"


section \<open>The host: callbacks arriving over time\<close>

text \<open>
  After a fork has returned, the host calls, one turn at a time and in any order, the
  continuations the fork handed to its two inputs, and runs what was given to
  \<open>delayed\<close>. An event is one such turn; \<open>Tick\<close> is the turn in which the host runs
  one pending closure of the fork, if there is one. A throw in a turn is not caught by
  anyone: the state it left stays, its value is lost.
\<close>

datatype ('e, 'f, 'v) event =
  FromThis "('e, 'f) settlement" | FromThat "('e, 'v) settlement" | Tick

fun ap_deliver ::
  "('h rstate \<Rightarrow> ('c, unit) act) \<Rightarrow> ('h rstate \<Rightarrow> ('c, unit) act)
   \<Rightarrow> ('e \<Rightarrow> ('o, 'h rstate) act) \<Rightarrow> ('s \<Rightarrow> ('o, 'h rstate) act)
   \<Rightarrow> ('e, 'v \<Rightarrow> 's, 'v) event
   \<Rightarrow> ('v \<Rightarrow> 's, 'v, 'h, 'o) ap_frame \<times> 'c \<Rightarrow> ('v \<Rightarrow> 's, 'v, 'h, 'o) ap_frame \<times> 'c" where
  "ap_deliver cleanupThis cleanupThat reject resolve (FromThis (Failure a)) (fr, c) =
     (snd (guardReject reject a fr), c)"
| "ap_deliver cleanupThis cleanupThat reject resolve (FromThis (Success x)) (fr, c) =
     (snd (guardResolve resolve setFunc x fr), c)"
| "ap_deliver cleanupThis cleanupThat reject resolve (FromThat (Failure a)) (fr, c) =
     (snd (guardReject reject a fr), c)"
| "ap_deliver cleanupThis cleanupThat reject resolve (FromThat (Success x)) (fr, c) =
     (snd (guardResolve resolve setVal x fr), c)"
| "ap_deliver cleanupThis cleanupThat reject resolve Tick (fr, c) =
     (if scheduled fr = 0 then (fr, c)
      else (fr\<lparr> scheduled := scheduled fr - 1 \<rparr>,
            snd (cleanupBoth cleanupThis cleanupThat (allState fr) c)))"

fun concat_deliver ::
  "('h rstate \<Rightarrow> ('c, unit) act) \<Rightarrow> ('h rstate \<Rightarrow> ('c, unit) act)
   \<Rightarrow> ('e \<Rightarrow> ('o, 'h rstate) act) \<Rightarrow> ('v \<Rightarrow> ('o, 'h rstate) act)
   \<Rightarrow> ('e, 'v, 'v) event
   \<Rightarrow> ('h, 'o) concat_frame \<times> 'c \<Rightarrow> ('h, 'o) concat_frame \<times> 'c" where
  "concat_deliver cleanupThis cleanupThat reject resolve (FromThis (Failure a)) (fr, c) =
     (snd (guard reject a fr), c)"
| "concat_deliver cleanupThis cleanupThat reject resolve (FromThis (Success x)) (fr, c) =
     (snd (guard resolve x fr), c)"
| "concat_deliver cleanupThis cleanupThat reject resolve (FromThat (Failure a)) (fr, c) =
     (snd (guard reject a fr), c)"
| "concat_deliver cleanupThis cleanupThat reject resolve (FromThat (Success x)) (fr, c) =
     (snd (guard resolve x fr), c)"
| "concat_deliver cleanupThis cleanupThat reject resolve Tick (fr, c) =
     (if scheduled_c fr = 0 then (fr, c)
      else (fr\<lparr> scheduled_c := scheduled_c fr - 1 \<rparr>,
            snd (cleanupBoth cleanupThis cleanupThat (allState_c fr) c)))"

section \<open>Observing a run\<close>

text \<open>
  Continuations that record each call they receive, and a fork procedure that calls its
  continuations with the listed settlements, in order and within the fork call, then
  returns a handle; its cleanup records, under the name of the Task, the run-state it is
  called with.
\<close>

definition log_reject :: "'e \<Rightarrow> (('e, 'v) settlement list, 'h rstate) act" where
  "log_reject a = (\<lambda>l. (Inr Undefined, l @ [Failure a]))"

definition log_resolve :: "'v \<Rightarrow> (('e, 'v) settlement list, 'h rstate) act" where
  "log_resolve b = (\<lambda>l. (Inr Undefined, l @ [Success b]))"

fun calls ::
  "('e \<Rightarrow> ('w, 'r) act) \<Rightarrow> ('v \<Rightarrow> ('w, 'r) act) \<Rightarrow> ('e, 'v) settlement list \<Rightarrow> ('w, unit) act" where
  "calls reject resolve [] = returns ()"
| "calls reject resolve (Failure a # ss) = and_then (reject a) (\<lambda>_. calls reject resolve ss)"
| "calls reject resolve (Success b # ss) = and_then (resolve b) (\<lambda>_. calls reject resolve ss)"

definition log_cleanup :: "'n \<Rightarrow> 'h rstate \<Rightarrow> (('n \<times> 'h rstate) list, unit) act" where
  "log_cleanup n s = (\<lambda>c. (Inr (), c @ [(n, s)]))"

definition scripted ::
  "('e, 'v) settlement list \<Rightarrow> 'h \<Rightarrow> 'n
   \<Rightarrow> ('e, 'v, ('w, 'h rstate) act, 'h rstate, (('n \<times> 'h rstate) list, unit) act) Task" where
  "scripted ss h n =
     \<lparr> fork = (\<lambda>reject resolve.
         and_then (calls reject resolve ss) (\<lambda>_. returns (Handle h))),
       cleanup = log_cleanup n \<rparr>"


text \<open>
  A whole run: the fork of \<open>this.ap(that)\<close> (of \<open>this.concat(that)\<close>) is called with the
  recording continuations, then the host delivers the later events. The result is the
  frame, whose \<open>outer\<close> is the list of calls the two continuations received, and the list
  of cleanup calls made.
\<close>

definition ap_run ::
  "('e, 'v \<Rightarrow> 's, (('v \<Rightarrow> 's, 'v, 'h, ('e, 's) settlement list) ap_frame, 'h rstate) act,
      'h rstate, ('c list, unit) act) Task
   \<Rightarrow> ('e, 'v, (('v \<Rightarrow> 's, 'v, 'h, ('e, 's) settlement list) ap_frame, 'h rstate) act,
      'h rstate, ('c list, unit) act) Task
   \<Rightarrow> ('e, 'v \<Rightarrow> 's, 'v) event list
   \<Rightarrow> ('v \<Rightarrow> 's, 'v, 'h, ('e, 's) settlement list) ap_frame \<times> 'c list" where
  "ap_run this that later =
     fold (ap_deliver (cleanup this) (cleanup that) log_reject log_resolve) later
       (snd (ap_body (fork this) (fork that) log_reject log_resolve (ap_new_frame [])), [])"

definition concat_run ::
  "('e, 'v, (('h, ('e, 'v) settlement list) concat_frame, 'h rstate) act,
      'h rstate, ('c list, unit) act) Task
   \<Rightarrow> ('e, 'v, (('h, ('e, 'v) settlement list) concat_frame, 'h rstate) act,
      'h rstate, ('c list, unit) act) Task
   \<Rightarrow> ('e, 'v, 'v) event list
   \<Rightarrow> ('h, ('e, 'v) settlement list) concat_frame \<times> 'c list" where
  "concat_run this that later =
     fold (concat_deliver (cleanup this) (cleanup that) log_reject log_resolve) later
       (snd (concat_body (fork this) (fork that) log_reject log_resolve (concat_new_frame [])), [])"

section \<open>N-ary combinators \<open>map2\<close> .. \<open>map10\<close>\<close>

text \<open>
  Each \<open>mapN\<close> declares a local curried helper \<open>parN\<close>. A function \<open>f\<close> of N arguments
  is a curried function here, so that \<open>f(_t1, _t2)\<close> is \<open>f t1 t2\<close>.
\<close>

definition par2 :: "('a1 \<Rightarrow> 'a2 \<Rightarrow> 's) \<Rightarrow> 'a1 \<Rightarrow> 'a2 \<Rightarrow> 's" where
  "par2 f t1 = (\<lambda>t2. f t1 t2)"

definition par3 :: "('a1 \<Rightarrow> 'a2 \<Rightarrow> 'a3 \<Rightarrow> 's) \<Rightarrow> 'a1 \<Rightarrow> 'a2 \<Rightarrow> 'a3 \<Rightarrow> 's" where
  "par3 f t1 = (\<lambda>t2. (\<lambda>t3. f t1 t2 t3))"

definition par4 :: "('a1 \<Rightarrow> 'a2 \<Rightarrow> 'a3 \<Rightarrow> 'a4 \<Rightarrow> 's) \<Rightarrow> 'a1 \<Rightarrow> 'a2 \<Rightarrow> 'a3 \<Rightarrow> 'a4 \<Rightarrow> 's" where
  "par4 f t1 = (\<lambda>t2. (\<lambda>t3. (\<lambda>t4. f t1 t2 t3 t4)))"

definition par5 :: "('a1 \<Rightarrow> 'a2 \<Rightarrow> 'a3 \<Rightarrow> 'a4 \<Rightarrow> 'a5 \<Rightarrow> 's) \<Rightarrow> 'a1 \<Rightarrow> 'a2 \<Rightarrow> 'a3 \<Rightarrow> 'a4 \<Rightarrow> 'a5 \<Rightarrow> 's" where
  "par5 f t1 = (\<lambda>t2. (\<lambda>t3. (\<lambda>t4. (\<lambda>t5. f t1 t2 t3 t4 t5))))"

definition par6 :: "('a1 \<Rightarrow> 'a2 \<Rightarrow> 'a3 \<Rightarrow> 'a4 \<Rightarrow> 'a5 \<Rightarrow> 'a6 \<Rightarrow> 's) \<Rightarrow> 'a1 \<Rightarrow> 'a2 \<Rightarrow> 'a3 \<Rightarrow> 'a4 \<Rightarrow> 'a5 \<Rightarrow> 'a6 \<Rightarrow> 's" where
  "par6 f t1 = (\<lambda>t2. (\<lambda>t3. (\<lambda>t4. (\<lambda>t5. (\<lambda>t6. f t1 t2 t3 t4 t5 t6)))))"

definition par7 :: "('a1 \<Rightarrow> 'a2 \<Rightarrow> 'a3 \<Rightarrow> 'a4 \<Rightarrow> 'a5 \<Rightarrow> 'a6 \<Rightarrow> 'a7 \<Rightarrow> 's) \<Rightarrow> 'a1 \<Rightarrow> 'a2 \<Rightarrow> 'a3 \<Rightarrow> 'a4 \<Rightarrow> 'a5 \<Rightarrow> 'a6 \<Rightarrow> 'a7 \<Rightarrow> 's" where
  "par7 f t1 = (\<lambda>t2. (\<lambda>t3. (\<lambda>t4. (\<lambda>t5. (\<lambda>t6. (\<lambda>t7. f t1 t2 t3 t4 t5 t6 t7))))))"

definition par8 :: "('a1 \<Rightarrow> 'a2 \<Rightarrow> 'a3 \<Rightarrow> 'a4 \<Rightarrow> 'a5 \<Rightarrow> 'a6 \<Rightarrow> 'a7 \<Rightarrow> 'a8 \<Rightarrow> 's) \<Rightarrow> 'a1 \<Rightarrow> 'a2 \<Rightarrow> 'a3 \<Rightarrow> 'a4 \<Rightarrow> 'a5 \<Rightarrow> 'a6 \<Rightarrow> 'a7 \<Rightarrow> 'a8 \<Rightarrow> 's" where
  "par8 f t1 = (\<lambda>t2. (\<lambda>t3. (\<lambda>t4. (\<lambda>t5. (\<lambda>t6. (\<lambda>t7. (\<lambda>t8. f t1 t2 t3 t4 t5 t6 t7 t8)))))))"

definition par9 :: "('a1 \<Rightarrow> 'a2 \<Rightarrow> 'a3 \<Rightarrow> 'a4 \<Rightarrow> 'a5 \<Rightarrow> 'a6 \<Rightarrow> 'a7 \<Rightarrow> 'a8 \<Rightarrow> 'a9 \<Rightarrow> 's) \<Rightarrow> 'a1 \<Rightarrow> 'a2 \<Rightarrow> 'a3 \<Rightarrow> 'a4 \<Rightarrow> 'a5 \<Rightarrow> 'a6 \<Rightarrow> 'a7 \<Rightarrow> 'a8 \<Rightarrow> 'a9 \<Rightarrow> 's" where
  "par9 f t1 = (\<lambda>t2. (\<lambda>t3. (\<lambda>t4. (\<lambda>t5. (\<lambda>t6. (\<lambda>t7. (\<lambda>t8. (\<lambda>t9. f t1 t2 t3 t4 t5 t6 t7 t8 t9))))))))"

definition par10 :: "('a1 \<Rightarrow> 'a2 \<Rightarrow> 'a3 \<Rightarrow> 'a4 \<Rightarrow> 'a5 \<Rightarrow> 'a6 \<Rightarrow> 'a7 \<Rightarrow> 'a8 \<Rightarrow> 'a9 \<Rightarrow> 'a10 \<Rightarrow> 's) \<Rightarrow> 'a1 \<Rightarrow> 'a2 \<Rightarrow> 'a3 \<Rightarrow> 'a4 \<Rightarrow> 'a5 \<Rightarrow> 'a6 \<Rightarrow> 'a7 \<Rightarrow> 'a8 \<Rightarrow> 'a9 \<Rightarrow> 'a10 \<Rightarrow> 's" where
  "par10 f t1 = (\<lambda>t2. (\<lambda>t3. (\<lambda>t4. (\<lambda>t5. (\<lambda>t6. (\<lambda>t7. (\<lambda>t8. (\<lambda>t9. (\<lambda>t10. f t1 t2 t3 t4 t5 t6 t7 t8 t9 t10)))))))))"

definition map2 where
  "map2 this (f :: 'a1 \<Rightarrow> 'a2 \<Rightarrow> 's) t2 =
     ap \<lparr> fork = (\<lambda>reject resolve.
            fork this (\<lambda>a. reject a) (\<lambda>b. resolve (par2 f b))),
          cleanup = cleanup this \<rparr> t2"

text \<open>
  From \<open>map3\<close> on, the success branch of the first Task still reads
  \<open>resolve(par2(b))\<close>, and no \<open>par2\<close> is in scope there (the file is in strict mode and
  declares none at top level): evaluating the argument throws a \<open>ReferenceError\<close>
  before \<open>resolve\<close> is called.
\<close>

definition map3 where
  "map3 this (f :: 'a1 \<Rightarrow> 'a2 \<Rightarrow> 'a3 \<Rightarrow> 's) t2 t3 =
     ap (ap
       \<lparr> fork = (\<lambda>reject (resolve :: ('a2 \<Rightarrow> 'a3 \<Rightarrow> 's) \<Rightarrow> _).
            fork this (\<lambda>a. reject a)
              (\<lambda>b :: 'a1. raise (ReferenceError ''par2 is not defined''))),
          cleanup = cleanup this \<rparr> t2) t3"








section \<open>Histories\<close>

text \<open>
  Everything the two inputs of a run do, in the order it happens: the calls \<open>this\<close> makes
  within its fork, the calls \<open>that\<close> makes within its fork, then the later events.
\<close>

definition history ::
  "('e, 'f) settlement list \<Rightarrow> ('e, 'v) settlement list \<Rightarrow> ('e, 'f, 'v) event list
   \<Rightarrow> ('e, 'f, 'v) event list" where
  "history s1 s2 later = map FromThis s1 @ map FromThat s2 @ later"

text \<open>Which input an event comes from.\<close>

fun from_this :: "('e, 'f, 'v) event \<Rightarrow> bool" where
  "from_this (FromThis st) = True"
| "from_this ev = False"

fun from_that :: "('e, 'f, 'v) event \<Rightarrow> bool" where
  "from_that (FromThat st) = True"
| "from_that ev = False"

text \<open>A loaded flag is only ever set together with its value.\<close>

definition loaded_ok :: "('f, 'v, 'h, 'o) ap_frame \<Rightarrow> bool" where
  "loaded_ok fr = ((funcLoaded fr \<longrightarrow> func fr \<noteq> None) \<and> (valLoaded fr \<longrightarrow> val fr \<noteq> None))"

text \<open>
  What holds of a frame and the events still to come, when each input settles at most once.
\<close>

definition once_inv :: "('f, 'v, 'h, 'x list) ap_frame \<Rightarrow> ('e, 'f, 'v) event list \<Rightarrow> bool" where
  "once_inv fr es =
     ((outer fr = [] \<and> (funcLoaded fr \<longrightarrow> filter from_this es = [])
                    \<and> (valLoaded fr \<longrightarrow> filter from_that es = []))
    \<or> (length (outer fr) = 1
        \<and> (rejected fr \<or> (filter from_this es = [] \<and> filter from_that es = []))))"

section \<open>A run of \<open>ap\<close> on scripted inputs is a fold of the history\<close>

lemmas ap_handler_defs = guardReject_def guardResolve_def ap_outer_call_def log_reject_def
  log_resolve_def setFunc_def setVal_def Let_def

lemma loaded_ok_deliver:
  assumes "loaded_ok fr"
  shows "loaded_ok (fst (ap_deliver cT cU log_reject log_resolve ev (fr, c)))"
proof (cases ev)
  case (FromThis st)
  then show ?thesis using assms
    by (cases st) (auto simp add: ap_handler_defs loaded_ok_def split: option.splits)
next
  case (FromThat st)
  then show ?thesis using assms
    by (cases st) (auto simp add: ap_handler_defs loaded_ok_def split: option.splits)
next
  case Tick
  then show ?thesis using assms by (simp add: loaded_ok_def)
qed

lemma deliver_this_allState:
  "loaded_ok fr \<Longrightarrow>
   ap_deliver cT cU log_reject log_resolve (FromThis st) (fr\<lparr> allState := s \<rparr>, c)
     = ((fst (ap_deliver cT cU log_reject log_resolve (FromThis st) (fr, c)))\<lparr> allState := s \<rparr>, c)"
  by (cases st) (auto simp add: ap_handler_defs loaded_ok_def split: option.splits)

lemma deliver_that_allState:
  "loaded_ok fr \<Longrightarrow>
   ap_deliver cT cU log_reject log_resolve (FromThat st) (fr\<lparr> allState := s \<rparr>, c)
     = ((fst (ap_deliver cT cU log_reject log_resolve (FromThat st) (fr, c)))\<lparr> allState := s \<rparr>, c)"
  by (cases st) (auto simp add: ap_handler_defs loaded_ok_def split: option.splits)

lemma and_then_Inr: "m w = (Inr a, w') \<Longrightarrow> and_then m k w = k a w'"
  by (simp add: and_then_def)

lemma guardReject_log:
  "\<exists>r. guardReject log_reject a fr
      = (Inr r, fst (ap_deliver cT cU log_reject log_resolve (FromThis (Failure a)) (fr, c)))"
  by (simp add: ap_handler_defs)

lemma guardResolve_func_log:
  "loaded_ok fr \<Longrightarrow> \<exists>r. guardResolve log_resolve setFunc x fr
      = (Inr r, fst (ap_deliver cT cU log_reject log_resolve (FromThis (Success x)) (fr, c)))"
  by (auto simp add: ap_handler_defs loaded_ok_def split: option.splits)

lemma guardResolve_val_log:
  "loaded_ok fr \<Longrightarrow> \<exists>r. guardResolve log_resolve setVal x fr
      = (Inr r, fst (ap_deliver cT cU log_reject log_resolve (FromThat (Success x)) (fr, c)))"
  by (auto simp add: ap_handler_defs loaded_ok_def split: option.splits)

lemma deliver_this_snd: "snd (ap_deliver cT cU reject resolve (FromThis st) (fr, c)) = c"
  by (cases st) simp_all

lemma deliver_that_snd: "snd (ap_deliver cT cU reject resolve (FromThat st) (fr, c)) = c"
  by (cases st) simp_all

lemma calls_this:
  "loaded_ok fr \<Longrightarrow>
   calls (guardReject log_reject) (guardResolve log_resolve setFunc) ss fr
     = (Inr (), fst (fold (ap_deliver cT cU log_reject log_resolve) (map FromThis ss) (fr, c)))"
proof (induction ss arbitrary: fr)
  case Nil
  show ?case by (simp add: returns_def)
next
  case (Cons st ss)
  let ?D = "ap_deliver cT cU log_reject log_resolve"
  let ?fr = "fst (?D (FromThis st) (fr, c))"
  have ok: "loaded_ok ?fr" using Cons.prems by (rule loaded_ok_deliver)
  have step: "?D (FromThis st) (fr, c) = (?fr, c)"
    using deliver_this_snd[of cT cU log_reject log_resolve st fr c]
    by (simp add: prod_eq_iff)
  show ?case
  proof (cases st)
    case (Failure a)
    obtain r where "guardReject log_reject a fr = (Inr r, ?fr)"
      using guardReject_log[of a fr cT cU c] Failure by auto
    then show ?thesis using Failure Cons.IH[OF ok] step
      by (simp add: and_then_Inr)
  next
    case (Success x)
    obtain r where "guardResolve log_resolve setFunc x fr = (Inr r, ?fr)"
      using guardResolve_func_log[OF Cons.prems, of x cT cU c] Success by auto
    then show ?thesis using Success Cons.IH[OF ok] step
      by (simp add: and_then_Inr)
  qed
qed

lemma calls_that:
  "loaded_ok fr \<Longrightarrow>
   calls (guardReject log_reject) (guardResolve log_resolve setVal) ss fr
     = (Inr (), fst (fold (ap_deliver cT cU log_reject log_resolve) (map FromThat ss) (fr, c)))"
proof (induction ss arbitrary: fr)
  case Nil
  show ?case by (simp add: returns_def)
next
  case (Cons st ss)
  let ?D = "ap_deliver cT cU log_reject log_resolve"
  let ?fr = "fst (?D (FromThat st) (fr, c))"
  have ok: "loaded_ok ?fr" using Cons.prems by (rule loaded_ok_deliver)
  have step: "?D (FromThat st) (fr, c) = (?fr, c)"
    using deliver_that_snd[of cT cU log_reject log_resolve st fr c]
    by (simp add: prod_eq_iff)
  show ?case
  proof (cases st)
    case (Failure a)
    obtain r where "guardReject log_reject a fr = (Inr r, ?fr)"
      using guardReject_log[of a fr cT cU c] Failure by auto
    then show ?thesis using Failure Cons.IH[OF ok] step
      by (simp add: and_then_Inr)
  next
    case (Success x)
    obtain r where "guardResolve log_resolve setVal x fr = (Inr r, ?fr)"
      using guardResolve_val_log[OF Cons.prems, of x cT cU c] Success by auto
    then show ?thesis using Success Cons.IH[OF ok] step
      by (simp add: and_then_Inr)
  qed
qed


lemma deliver_allState:
  assumes "loaded_ok fr" "ev \<noteq> Tick"
  shows "ap_deliver cT cU log_reject log_resolve ev (fr\<lparr> allState := s \<rparr>, c)
     = ((fst (ap_deliver cT cU log_reject log_resolve ev (fr, c)))\<lparr> allState := s \<rparr>, c)"
  using assms by (cases ev) (simp_all add: deliver_this_allState deliver_that_allState)

lemma fold_deliver_allState:
  "loaded_ok fr \<Longrightarrow> Tick \<notin> set es \<Longrightarrow>
   fold (ap_deliver cT cU log_reject log_resolve) es (fr\<lparr> allState := s \<rparr>, c)
     = ((fst (fold (ap_deliver cT cU log_reject log_resolve) es (fr, c)))\<lparr> allState := s \<rparr>, c)"
proof (induction es arbitrary: fr)
  case Nil
  show ?case by simp
next
  case (Cons ev es)
  let ?D = "ap_deliver cT cU log_reject log_resolve"
  let ?fr = "fst (?D ev (fr, c))"
  have nt: "ev \<noteq> Tick" "Tick \<notin> set es" using Cons.prems(2) by auto
  have ok: "loaded_ok ?fr" using Cons.prems(1) by (rule loaded_ok_deliver)
  have a: "?D ev (fr\<lparr> allState := s \<rparr>, c) = (?fr\<lparr> allState := s \<rparr>, c)"
    using deliver_allState[OF Cons.prems(1) nt(1)] .
  have "snd (?D ev (fr, c)) = c"
    using nt(1) by (cases ev) (simp_all add: deliver_this_snd deliver_that_snd)
  then have b: "?D ev (fr, c) = (?fr, c)" by (simp add: prod_eq_iff)
  show ?case using Cons.IH[OF ok nt(2)] a b by simp
qed

lemma loaded_ok_fold:
  "loaded_ok fr \<Longrightarrow>
   loaded_ok (fst (fold (ap_deliver cT cU log_reject log_resolve) es (fr, c)))"
proof (induction es arbitrary: fr c)
  case Nil
  then show ?case by simp
next
  case (Cons ev es)
  let ?D = "ap_deliver cT cU log_reject log_resolve"
  have "loaded_ok (fst (?D ev (fr, c)))" using Cons.prems by (rule loaded_ok_deliver)
  then have "loaded_ok (fst (fold ?D es (fst (?D ev (fr, c)), snd (?D ev (fr, c)))))"
    by (rule Cons.IH)
  then show ?case by simp
qed

lemma loaded_ok_new: "loaded_ok (ap_new_frame w)"
  by (simp add: loaded_ok_def ap_new_frame_def)

lemma fold_this_snd:
  "snd (fold (ap_deliver cT cU reject resolve) (map FromThis ss) (fr, c)) = c"
proof (induction ss arbitrary: fr)
  case Nil
  show ?case by simp
next
  case (Cons st ss)
  obtain fr' where "ap_deliver cT cU reject resolve (FromThis st) (fr, c) = (fr', c)"
    by (metis deliver_this_snd prod.collapse)
  then show ?case using Cons.IH by simp
qed

lemma fork_scripted_this:
  assumes "loaded_ok fr"
  shows "fork (scripted s1 h1 n1) (guardReject log_reject) (guardResolve log_resolve setFunc) fr
      = (Inr (Handle h1),
         fst (fold (ap_deliver cT cU log_reject log_resolve) (map FromThis s1) (fr, c)))"
  by (simp add: scripted_def and_then_def returns_def calls_this[OF assms, of s1 cT cU c])

lemma fork_scripted_that:
  assumes "loaded_ok fr"
  shows "fork (scripted s2 h2 n2) (guardReject log_reject) (guardResolve log_resolve setVal) fr
      = (Inr (Handle h2),
         fst (fold (ap_deliver cT cU log_reject log_resolve) (map FromThat s2) (fr, c)))"
  by (simp add: scripted_def and_then_def returns_def calls_that[OF assms, of s2 cT cU c])

lemma ap_body_scripted:
  assumes "loaded_ok fr"
  shows "ap_body (fork (scripted s1 h1 n1)) (fork (scripted s2 h2 n2)) log_reject log_resolve fr
     = (Inr (Pair (Handle h1) (Handle h2)),
        (fst (fold (ap_deliver cT cU log_reject log_resolve)
               (map FromThis s1 @ map FromThat s2) (fr, c)))
          \<lparr> allState := Pair (Handle h1) (Handle h2) \<rparr>)"
proof -
  let ?D = "ap_deliver cT cU log_reject log_resolve"
  let ?fr1 = "fst (fold ?D (map FromThis s1) (fr, c))"
  let ?fr2 = "fst (fold ?D (map FromThat s2) (?fr1, c))"
  have ok1: "loaded_ok ?fr1" using assms by (rule loaded_ok_fold)
  have e1: "fold ?D (map FromThis s1) (fr, c) = (?fr1, c)"
    by (simp add: prod_eq_iff fold_this_snd)
  have t1: "fork (scripted s1 h1 n1) (guardReject log_reject) (guardResolve log_resolve setFunc) fr
      = (Inr (Handle h1), ?fr1)"
    by (rule fork_scripted_this[OF assms])
  have t2: "fork (scripted s2 h2 n2) (guardReject log_reject) (guardResolve log_resolve setVal) ?fr1
      = (Inr (Handle h2), ?fr2)"
    by (rule fork_scripted_that[OF ok1])
  have "ap_body (fork (scripted s1 h1 n1)) (fork (scripted s2 h2 n2)) log_reject log_resolve fr
     = (Inr (Pair (Handle h1) (Handle h2)), ?fr2\<lparr> allState := Pair (Handle h1) (Handle h2) \<rparr>)"
    by (simp add: ap_body_def and_then_def t1 t2)
  then show ?thesis using e1 by simp
qed

lemma ap_run_scripted:
  "ap_run (scripted s1 h1 n1) (scripted s2 h2 n2) later
     = fold (ap_deliver (log_cleanup n1) (log_cleanup n2) log_reject log_resolve)
         (history s1 s2 later)
         ((ap_new_frame [])\<lparr> allState := Pair (Handle h1) (Handle h2) \<rparr>, [])"
proof -
  let ?D = "ap_deliver (log_cleanup n1) (log_cleanup n2) log_reject log_resolve"
  let ?sync = "map FromThis s1 @ map FromThat s2"
  let ?P = "Pair (Handle h1) (Handle h2)"
  have nt: "Tick \<notin> set ?sync" by auto
  have a: "snd (ap_body (fork (scripted s1 h1 n1)) (fork (scripted s2 h2 n2))
              log_reject log_resolve (ap_new_frame []))
      = (fst (fold ?D ?sync (ap_new_frame [], [])))\<lparr> allState := ?P \<rparr>"
    by (subst ap_body_scripted[OF loaded_ok_new, where cT = "log_cleanup n1"
          and cU = "log_cleanup n2" and c = "[]"]) simp
  have b: "fold ?D ?sync ((ap_new_frame [])\<lparr> allState := ?P \<rparr>, [])
      = ((fst (fold ?D ?sync (ap_new_frame [], [])))\<lparr> allState := ?P \<rparr>, [])"
    by (rule fold_deliver_allState[OF loaded_ok_new nt])
  have c: "cleanup (scripted s1 h1 n1) = log_cleanup n1" "cleanup (scripted s2 h2 n2) = log_cleanup n2"
    by (simp_all add: scripted_def)
  have d: "fold ?D (history s1 s2 later) ((ap_new_frame [])\<lparr> allState := ?P \<rparr>, [])
      = fold ?D later (fold ?D ?sync ((ap_new_frame [])\<lparr> allState := ?P \<rparr>, []))"
    by (simp add: history_def)
  show ?thesis unfolding ap_run_def a c d b by (rule refl)
qed

section \<open>Ticks do not change what is delivered\<close>

lemmas run_defs = ap_run_def ap_body_def ap_new_frame_def and_then_def returns_def
  Task_of_def Task_rejected_def Task_empty_def scripted_def ap_handler_defs

lemma deliver_scheduled:
  assumes "ev \<noteq> Tick"
  shows "\<exists>k. ap_deliver cT cU log_reject log_resolve ev (fr\<lparr> scheduled := k0 \<rparr>, c)
     = ((fst (ap_deliver cT cU log_reject log_resolve ev (fr, c0)))\<lparr> scheduled := k \<rparr>, c)"
proof -
  let ?D = "ap_deliver cT cU log_reject log_resolve"
  have "?D ev (fr\<lparr> scheduled := k0 \<rparr>, c)
     = ((fst (?D ev (fr, c0)))\<lparr> scheduled := scheduled (fst (?D ev (fr\<lparr> scheduled := k0 \<rparr>, c))) \<rparr>, c)"
  proof (cases ev)
    case (FromThis st)
    then show ?thesis
      by (cases st) (auto simp add: ap_handler_defs split: option.splits)
  next
    case (FromThat st)
    then show ?thesis
      by (cases st) (auto simp add: ap_handler_defs split: option.splits)
  next
    case Tick
    then show ?thesis using assms by simp
  qed
  then show ?thesis by blast
qed

lemma fold_without_ticks:
  "\<exists>k c'. fold (ap_deliver cT cU log_reject log_resolve) es (fr\<lparr> scheduled := k0 \<rparr>, c)
     = ((fst (fold (ap_deliver cT cU log_reject log_resolve) (filter (\<lambda>x. x \<noteq> Tick) es) (fr, c0)))
          \<lparr> scheduled := k \<rparr>, c')"
proof (induction es arbitrary: fr k0 c)
  case Nil
  show ?case by (rule exI[where x = k0], rule exI[where x = c], simp)
next
  case (Cons ev es)
  let ?D = "ap_deliver cT cU log_reject log_resolve"
  show ?case
  proof (cases "ev = Tick")
    case True
    have "\<exists>k c'. ?D ev (fr\<lparr> scheduled := k0 \<rparr>, c) = (fr\<lparr> scheduled := k \<rparr>, c')"
      using True by (cases "k0 = 0") auto
    then obtain k c' where "?D ev (fr\<lparr> scheduled := k0 \<rparr>, c) = (fr\<lparr> scheduled := k \<rparr>, c')"
      by blast
    then show ?thesis using True Cons.IH[where fr = fr and ?k0.0 = k and c = c'] by simp
  next
    case False
    obtain k where k: "?D ev (fr\<lparr> scheduled := k0 \<rparr>, c)
        = ((fst (?D ev (fr, c0)))\<lparr> scheduled := k \<rparr>, c)"
      using deliver_scheduled[OF False, where fr = fr and ?k0.0 = k0 and c = c and ?c0.0 = c0
        and cT = cT and cU = cU] by blast
    have "snd (?D ev (fr, c0)) = c0"
      using False by (cases ev) (simp_all add: deliver_this_snd deliver_that_snd)
    then have e: "?D ev (fr, c0) = (fst (?D ev (fr, c0)), c0)" by (simp add: prod_eq_iff)
    show ?thesis using False k Cons.IH[where fr = "fst (?D ev (fr, c0))" and ?k0.0 = k and c = c] e by simp
  qed
qed

lemma outer_without_ticks:
  "outer (fst (fold (ap_deliver cT cU log_reject log_resolve) es (fr, c)))
     = outer (fst (fold (ap_deliver cT cU log_reject log_resolve) (filter (\<lambda>x. x \<noteq> Tick) es) (fr, c)))"
proof -
  obtain k c' where "fold (ap_deliver cT cU log_reject log_resolve) es (fr\<lparr> scheduled := scheduled fr \<rparr>, c)
     = ((fst (fold (ap_deliver cT cU log_reject log_resolve) (filter (\<lambda>x. x \<noteq> Tick) es) (fr, c)))
          \<lparr> scheduled := k \<rparr>, c')"
    using fold_without_ticks[where fr = fr and ?k0.0 = "scheduled fr" and c = c and ?c0.0 = c
        and cT = cT and cU = cU and es = es] by blast
  then show ?thesis by simp
qed

section \<open>Invariants of a frame along a history\<close>

lemma fold_inv:
  assumes step: "\<And>ev fr c. ev \<in> set es \<Longrightarrow> P fr \<Longrightarrow>
      P (fst (ap_deliver cT cU log_reject log_resolve ev (fr, c)))"
    and init: "P fr"
  shows "P (fst (fold (ap_deliver cT cU log_reject log_resolve) es (fr, c)))"
  using assms
proof (induction es arbitrary: fr c)
  case Nil
  then show ?case by simp
next
  case (Cons ev es)
  let ?D = "ap_deliver cT cU log_reject log_resolve"
  have p: "P (fst (?D ev (fr, c)))" using Cons.prems by simp
  have "P (fst (fold ?D es (fst (?D ev (fr, c)), snd (?D ev (fr, c)))))"
    by (rule Cons.IH) (use Cons.prems p in auto)
  then show ?case by simp
qed

lemma fold_inv_clean:
  assumes step: "\<And>ev fr c. ev \<in> set es \<Longrightarrow> P fr \<Longrightarrow>
      P (fst (ap_deliver cT cU log_reject log_resolve ev (fr, c)))"
    and zero: "\<And>fr. P fr \<Longrightarrow> scheduled fr = 0"
    and init: "P fr"
  shows "snd (fold (ap_deliver cT cU log_reject log_resolve) es (fr, c)) = c"
  using step init
proof (induction es arbitrary: fr)
  case Nil
  then show ?case by simp
next
  case (Cons ev es)
  let ?D = "ap_deliver cT cU log_reject log_resolve"
  have p: "P (fst (?D ev (fr, c)))" using Cons.prems by simp
  have "scheduled fr = 0" using Cons.prems(2) by (rule zero)
  then have "snd (?D ev (fr, c)) = c"
    by (cases ev) (simp_all add: deliver_this_snd deliver_that_snd)
  then have e: "?D ev (fr, c) = (fst (?D ev (fr, c)), c)" by (simp add: prod_eq_iff)
  have "snd (fold ?D es (fst (?D ev (fr, c)), c)) = c"
    by (rule Cons.IH) (use Cons.prems p in auto)
  then show ?case using e by simp
qed

lemma step_unrejected:
  assumes "\<not> rejected fr \<and> (\<exists>vs. outer fr = map Success vs)"
    and "\<forall>a. ev \<noteq> FromThis (Failure a) \<and> ev \<noteq> FromThat (Failure a)"
  shows "\<not> rejected (fst (ap_deliver cT cU log_reject log_resolve ev (fr, c)))
       \<and> (\<exists>vs. outer (fst (ap_deliver cT cU log_reject log_resolve ev (fr, c))) = map Success vs)"
proof -
  obtain vs where vs: "outer fr = map Success vs" using assms(1) by blast
  have ext: "\<And>x. \<exists>ws. map Success vs @ [Success x] = map Success ws"
    by (rule_tac x = "vs @ [x]" in exI) simp
  show ?thesis
  proof (cases ev)
    case (FromThis st)
    then show ?thesis using assms vs ext
      by (cases st) (auto simp add: ap_handler_defs split: option.splits)
  next
    case (FromThat st)
    then show ?thesis using assms vs ext
      by (cases st) (auto simp add: ap_handler_defs split: option.splits)
  next
    case Tick
    then show ?thesis using assms by simp
  qed
qed

lemma step_rejected:
  assumes "rejected fr \<and> outer fr = l \<and> scheduled fr = 0"
  shows "rejected (fst (ap_deliver cT cU log_reject log_resolve ev (fr, c)))
       \<and> outer (fst (ap_deliver cT cU log_reject log_resolve ev (fr, c))) = l
       \<and> scheduled (fst (ap_deliver cT cU log_reject log_resolve ev (fr, c))) = 0"
proof (cases ev)
  case (FromThis st)
  then show ?thesis using assms by (cases st) (auto simp add: ap_handler_defs)
next
  case (FromThat st)
  then show ?thesis using assms by (cases st) (auto simp add: ap_handler_defs)
next
  case Tick
  then show ?thesis using assms by simp
qed

lemma step_rejected_outer:
  assumes "rejected fr \<and> outer fr = l"
  shows "rejected (fst (ap_deliver cT cU log_reject log_resolve ev (fr, c)))
       \<and> outer (fst (ap_deliver cT cU log_reject log_resolve ev (fr, c))) = l"
proof (cases ev)
  case (FromThis st)
  then show ?thesis using assms by (cases st) (auto simp add: ap_handler_defs)
next
  case (FromThat st)
  then show ?thesis using assms by (cases st) (auto simp add: ap_handler_defs)
next
  case Tick
  then show ?thesis using assms by simp
qed

lemma step_func_missing:
  assumes "\<not> funcLoaded fr \<and> scheduled fr = 0 \<and> (\<not> rejected fr \<longrightarrow> outer fr = [])"
    and "\<forall>f. ev \<noteq> FromThis (Success f)"
  shows "\<not> funcLoaded (fst (ap_deliver cT cU log_reject log_resolve ev (fr, c)))
       \<and> scheduled (fst (ap_deliver cT cU log_reject log_resolve ev (fr, c))) = 0
       \<and> (\<not> rejected (fst (ap_deliver cT cU log_reject log_resolve ev (fr, c)))
            \<longrightarrow> outer (fst (ap_deliver cT cU log_reject log_resolve ev (fr, c))) = [])"
proof (cases ev)
  case (FromThis st)
  then show ?thesis using assms by (cases st) (auto simp add: ap_handler_defs)
next
  case (FromThat st)
  then show ?thesis using assms by (cases st) (auto simp add: ap_handler_defs split: option.splits)
next
  case Tick
  then show ?thesis using assms by simp
qed

lemma step_val_missing:
  assumes "\<not> valLoaded fr \<and> scheduled fr = 0 \<and> (\<not> rejected fr \<longrightarrow> outer fr = [])"
    and "\<forall>v. ev \<noteq> FromThat (Success v)"
  shows "\<not> valLoaded (fst (ap_deliver cT cU log_reject log_resolve ev (fr, c)))
       \<and> scheduled (fst (ap_deliver cT cU log_reject log_resolve ev (fr, c))) = 0
       \<and> (\<not> rejected (fst (ap_deliver cT cU log_reject log_resolve ev (fr, c)))
            \<longrightarrow> outer (fst (ap_deliver cT cU log_reject log_resolve ev (fr, c))) = [])"
proof (cases ev)
  case (FromThis st)
  then show ?thesis using assms by (cases st) (auto simp add: ap_handler_defs split: option.splits)
next
  case (FromThat st)
  then show ?thesis using assms by (cases st) (auto simp add: ap_handler_defs)
next
  case Tick
  then show ?thesis using assms by simp
qed

section \<open>Before and after the first failure\<close>

lemma failure_step:
  assumes "ev = FromThis (Failure e) \<or> ev = FromThat (Failure e)"
  shows "ap_deliver cT cU log_reject log_resolve ev st
     = (if rejected (fst st) then fst st
        else (fst st)\<lparr> rejected := True, outer := outer (fst st) @ [Failure e] \<rparr>, snd st)"
  using assms by (cases st) (auto simp add: ap_handler_defs)

lemma fold_unrejected:
  assumes "\<not> rejected fr \<and> (\<exists>vs. outer fr = map Success vs)"
    and "\<forall>a. FromThis (Failure a) \<notin> set es \<and> FromThat (Failure a) \<notin> set es"
  shows "(\<not> rejected (fst (fold (ap_deliver cT cU log_reject log_resolve) es (fr, c))) \<and> (\<exists>vs. outer (fst (fold (ap_deliver cT cU log_reject log_resolve) es (fr, c))) = map Success vs))"
proof (rule fold_inv[where P = "\<lambda>fr. \<not> rejected fr \<and> (\<exists>vs. outer fr = map Success vs)"], goal_cases)
  case (1 x fr' c')
  then show ?case using assms by (intro step_unrejected) auto
next
  case 2
  show ?case by (rule assms(1))
qed

lemma fold_rejected_outer:
  assumes "rejected fr \<and> outer fr = l"
  shows "(rejected (fst (fold (ap_deliver cT cU log_reject log_resolve) es (fr, c))) \<and> outer (fst (fold (ap_deliver cT cU log_reject log_resolve) es (fr, c))) = l)"
proof (rule fold_inv[where P = "\<lambda>fr. rejected fr \<and> outer fr = l"], goal_cases)
  case (1 x fr' c')
  then show ?case using assms by (intro step_rejected_outer) auto
next
  case 2
  show ?case by (rule assms(1))
qed

lemma fold_rejected:
  assumes "rejected fr \<and> outer fr = l \<and> scheduled fr = 0"
  shows "(rejected (fst (fold (ap_deliver cT cU log_reject log_resolve) es (fr, c))) \<and> outer (fst (fold (ap_deliver cT cU log_reject log_resolve) es (fr, c))) = l \<and> scheduled (fst (fold (ap_deliver cT cU log_reject log_resolve) es (fr, c))) = 0)
       \<and> snd (fold (ap_deliver cT cU log_reject log_resolve) es (fr, c)) = c"
proof
  show "rejected (fst (fold (ap_deliver cT cU log_reject log_resolve) es (fr, c))) \<and> outer (fst (fold (ap_deliver cT cU log_reject log_resolve) es (fr, c))) = l \<and> scheduled (fst (fold (ap_deliver cT cU log_reject log_resolve) es (fr, c))) = 0"
  proof (rule fold_inv[where P = "\<lambda>fr. rejected fr \<and> outer fr = l \<and> scheduled fr = 0"], goal_cases)
    case (1 x fr' c')
    then show ?case using assms by (intro step_rejected) auto
  next
    case 2
    show ?case by (rule assms(1))
  qed
  show "snd (fold (ap_deliver cT cU log_reject log_resolve) es (fr, c)) = c"
  proof (rule fold_inv_clean[where P = "\<lambda>fr. rejected fr \<and> outer fr = l \<and> scheduled fr = 0"], goal_cases)
    case (1 x fr' c')
    then show ?case using assms by (intro step_rejected) auto
  next
    case (2 fr')
    then show ?case by simp
  next
    case 3
    show ?case by (rule assms(1))
  qed
qed

lemma fold_func_missing:
  assumes "\<not> funcLoaded fr \<and> scheduled fr = 0 \<and> (\<not> rejected fr \<longrightarrow> outer fr = [])"
    and "\<forall>f. FromThis (Success f) \<notin> set es"
  shows "(\<not> funcLoaded (fst (fold (ap_deliver cT cU log_reject log_resolve) es (fr, c))) \<and> scheduled (fst (fold (ap_deliver cT cU log_reject log_resolve) es (fr, c))) = 0 \<and> (\<not> rejected (fst (fold (ap_deliver cT cU log_reject log_resolve) es (fr, c))) \<longrightarrow> outer (fst (fold (ap_deliver cT cU log_reject log_resolve) es (fr, c))) = []))
       \<and> snd (fold (ap_deliver cT cU log_reject log_resolve) es (fr, c)) = c"
proof
  show "\<not> funcLoaded (fst (fold (ap_deliver cT cU log_reject log_resolve) es (fr, c))) \<and> scheduled (fst (fold (ap_deliver cT cU log_reject log_resolve) es (fr, c))) = 0 \<and> (\<not> rejected (fst (fold (ap_deliver cT cU log_reject log_resolve) es (fr, c))) \<longrightarrow> outer (fst (fold (ap_deliver cT cU log_reject log_resolve) es (fr, c))) = [])"
  proof (rule fold_inv[where P = "\<lambda>fr. \<not> funcLoaded fr \<and> scheduled fr = 0 \<and> (\<not> rejected fr \<longrightarrow> outer fr = [])"], goal_cases)
    case (1 x fr' c')
    then show ?case using assms by (intro step_func_missing) auto
  next
    case 2
    show ?case by (rule assms(1))
  qed
  show "snd (fold (ap_deliver cT cU log_reject log_resolve) es (fr, c)) = c"
  proof (rule fold_inv_clean[where P = "\<lambda>fr. \<not> funcLoaded fr \<and> scheduled fr = 0 \<and> (\<not> rejected fr \<longrightarrow> outer fr = [])"], goal_cases)
    case (1 x fr' c')
    then show ?case using assms by (intro step_func_missing) auto
  next
    case (2 fr')
    then show ?case by simp
  next
    case 3
    show ?case by (rule assms(1))
  qed
qed

lemma fold_val_missing:
  assumes "\<not> valLoaded fr \<and> scheduled fr = 0 \<and> (\<not> rejected fr \<longrightarrow> outer fr = [])"
    and "\<forall>v. FromThat (Success v) \<notin> set es"
  shows "(\<not> valLoaded (fst (fold (ap_deliver cT cU log_reject log_resolve) es (fr, c))) \<and> scheduled (fst (fold (ap_deliver cT cU log_reject log_resolve) es (fr, c))) = 0 \<and> (\<not> rejected (fst (fold (ap_deliver cT cU log_reject log_resolve) es (fr, c))) \<longrightarrow> outer (fst (fold (ap_deliver cT cU log_reject log_resolve) es (fr, c))) = []))
       \<and> snd (fold (ap_deliver cT cU log_reject log_resolve) es (fr, c)) = c"
proof
  show "\<not> valLoaded (fst (fold (ap_deliver cT cU log_reject log_resolve) es (fr, c))) \<and> scheduled (fst (fold (ap_deliver cT cU log_reject log_resolve) es (fr, c))) = 0 \<and> (\<not> rejected (fst (fold (ap_deliver cT cU log_reject log_resolve) es (fr, c))) \<longrightarrow> outer (fst (fold (ap_deliver cT cU log_reject log_resolve) es (fr, c))) = [])"
  proof (rule fold_inv[where P = "\<lambda>fr. \<not> valLoaded fr \<and> scheduled fr = 0 \<and> (\<not> rejected fr \<longrightarrow> outer fr = [])"], goal_cases)
    case (1 x fr' c')
    then show ?case using assms by (intro step_val_missing) auto
  next
    case 2
    show ?case by (rule assms(1))
  qed
  show "snd (fold (ap_deliver cT cU log_reject log_resolve) es (fr, c)) = c"
  proof (rule fold_inv_clean[where P = "\<lambda>fr. \<not> valLoaded fr \<and> scheduled fr = 0 \<and> (\<not> rejected fr \<longrightarrow> outer fr = [])"], goal_cases)
    case (1 x fr' c')
    then show ?case using assms by (intro step_val_missing) auto
  next
    case (2 fr')
    then show ?case by simp
  next
    case 3
    show ?case by (rule assms(1))
  qed
qed

lemma fresh_frame:
  "\<not> rejected ((ap_new_frame w)\<lparr> allState := s \<rparr>)
 \<and> \<not> funcLoaded ((ap_new_frame w)\<lparr> allState := s \<rparr>)
 \<and> \<not> valLoaded ((ap_new_frame w)\<lparr> allState := s \<rparr>)
 \<and> scheduled ((ap_new_frame w)\<lparr> allState := s \<rparr>) = 0
 \<and> outer ((ap_new_frame w)\<lparr> allState := s \<rparr>) = w"
  by (simp add: ap_new_frame_def)

section \<open>A run of \<open>concat\<close> on scripted inputs is a fold of the history\<close>

lemmas concat_handler_defs = guard_def concat_outer_call_def log_reject_def log_resolve_def

lemma fold_preserves:
  assumes "\<And>x s. x \<in> set xs \<Longrightarrow> P s \<Longrightarrow> P (f x s)" and "P s"
  shows "P (fold f xs s)"
  using assms by (induction xs arbitrary: s) simp_all

lemma concat_deliver_settle:
  assumes "ev = FromThis st \<or> ev = FromThat st"
  shows "concat_deliver cT cU log_reject log_resolve ev s
     = (if is_done (fst s) then fst s
        else (fst s)\<lparr> is_done := True, scheduled_c := scheduled_c (fst s) + 1,
               outer_c := outer_c (fst s) @ [st] \<rparr>, snd s)"
  using assms by (cases s; cases st) (auto simp add: concat_handler_defs)

lemma concat_deliver_tick:
  "concat_deliver cT cU reject resolve Tick s
     = (if scheduled_c (fst s) = 0 then s
        else ((fst s)\<lparr> scheduled_c := scheduled_c (fst s) - 1 \<rparr>,
              snd (cleanupBoth cT cU (allState_c (fst s)) (snd s))))"
  by (cases s) simp

lemma guard_reject_log:
  "\<exists>r. guard log_reject a fr
      = (Inr r, fst (concat_deliver cT cU log_reject log_resolve (FromThis (Failure a)) (fr, c)))"
  by (simp add: concat_handler_defs)

lemma guard_resolve_log:
  "\<exists>r. guard log_resolve b fr
      = (Inr r, fst (concat_deliver cT cU log_reject log_resolve (FromThis (Success b)) (fr, c)))"
  by (simp add: concat_handler_defs)

lemma concat_calls:
  "calls (guard log_reject) (guard log_resolve) ss fr
     = (Inr (), fst (fold (concat_deliver cT cU log_reject log_resolve) (map FromThis ss) (fr, c)))"
proof (induction ss arbitrary: fr)
  case Nil
  show ?case by (simp add: returns_def)
next
  case (Cons st ss)
  let ?D = "concat_deliver cT cU log_reject log_resolve"
  let ?fr = "fst (?D (FromThis st) (fr, c))"
  have step: "?D (FromThis st) (fr, c) = (?fr, c)"
    by (simp add: concat_deliver_settle[where st = st])
  show ?case
  proof (cases st)
    case (Failure a)
    obtain r where "guard log_reject a fr = (Inr r, ?fr)"
      using guard_reject_log[of a fr cT cU c] Failure by auto
    then show ?thesis using Failure Cons.IH[of ?fr] step
      by (simp add: and_then_Inr)
  next
    case (Success x)
    obtain r where "guard log_resolve x fr = (Inr r, ?fr)"
      using guard_resolve_log[of x fr cT cU c] Success by auto
    then show ?thesis using Success Cons.IH[of ?fr] step
      by (simp add: and_then_Inr)
  qed
qed

lemma concat_this_that:
  "fold (concat_deliver cT cU log_reject log_resolve) (map FromThat ss) s
     = fold (concat_deliver cT cU log_reject log_resolve) (map FromThis ss) s"
  by (induction ss arbitrary: s)
     (simp_all add: concat_deliver_settle[where st = st for st, OF disjI1[OF refl]]
        concat_deliver_settle[where st = st for st, OF disjI2[OF refl]])

lemma concat_fold_allState:
  "Tick \<notin> set es \<Longrightarrow>
   fold (concat_deliver cT cU log_reject log_resolve) es (fr\<lparr> allState_c := s \<rparr>, c)
     = ((fst (fold (concat_deliver cT cU log_reject log_resolve) es (fr, c)))\<lparr> allState_c := s \<rparr>, c)"
proof (induction es arbitrary: fr)
  case Nil
  show ?case by simp
next
  case (Cons ev es)
  let ?D = "concat_deliver cT cU log_reject log_resolve"
  let ?fr = "fst (?D ev (fr, c))"
  obtain st where ev: "ev = FromThis st \<or> ev = FromThat st"
    using Cons.prems by (cases ev) auto
  have a: "?D ev (fr\<lparr> allState_c := s \<rparr>, c) = (?fr\<lparr> allState_c := s \<rparr>, c)"
    by (simp add: concat_deliver_settle[OF ev])
  have b: "?D ev (fr, c) = (?fr, c)"
    by (simp add: concat_deliver_settle[OF ev])
  have nt: "Tick \<notin> set es" using Cons.prems by simp
  have "fold ?D (ev # es) (fr\<lparr> allState_c := s \<rparr>, c) = fold ?D es (?fr\<lparr> allState_c := s \<rparr>, c)"
    by (simp only: fold_Cons comp_def a)
  also have "\<dots> = ((fst (fold ?D es (?fr, c)))\<lparr> allState_c := s \<rparr>, c)"
    by (rule Cons.IH[OF nt])
  also have "fold ?D es (?fr, c) = fold ?D (ev # es) (fr, c)"
    using b by simp
  finally show ?case .
qed

lemma concat_body_scripted:
  "concat_body (fork (scripted s1 h1 n1)) (fork (scripted s2 h2 n2)) log_reject log_resolve fr
     = (Inr (Pair (Handle h1) (Handle h2)),
        (fst (fold (concat_deliver cT cU log_reject log_resolve)
               (map FromThis s1 @ map FromThat s2) (fr, c)))
          \<lparr> allState_c := Pair (Handle h1) (Handle h2) \<rparr>)"
proof -
  let ?D = "concat_deliver cT cU log_reject log_resolve"
  let ?fr1 = "fst (fold ?D (map FromThis s1) (fr, c))"
  let ?fr2 = "fst (fold ?D (map FromThat s2) (?fr1, c))"
  have sndc: "snd (fold ?D (map FromThis ss) (fr', c)) = c" for ss fr'
    by (induction ss arbitrary: fr')
       (simp_all add: concat_deliver_settle[where st = st for st, OF disjI1[OF refl]])
  have e1: "fold ?D (map FromThis s1) (fr, c) = (?fr1, c)"
    by (simp add: prod_eq_iff sndc)
  have t1: "fork (scripted s1 h1 n1) (guard log_reject) (guard log_resolve) fr
      = (Inr (Handle h1), ?fr1)"
    by (simp add: scripted_def and_then_def returns_def concat_calls[of s1 fr cT cU c])
  have t2: "fork (scripted s2 h2 n2) (guard log_reject) (guard log_resolve) ?fr1
      = (Inr (Handle h2), ?fr2)"
    by (simp add: scripted_def and_then_def returns_def concat_calls[of s2 ?fr1 cT cU c]
          concat_this_that)
  have "concat_body (fork (scripted s1 h1 n1)) (fork (scripted s2 h2 n2)) log_reject log_resolve fr
     = (Inr (Pair (Handle h1) (Handle h2)), ?fr2\<lparr> allState_c := Pair (Handle h1) (Handle h2) \<rparr>)"
    by (simp add: concat_body_def and_then_def t1 t2)
  then show ?thesis using e1 by simp
qed

lemma concat_run_scripted:
  "concat_run (scripted s1 h1 n1) (scripted s2 h2 n2) later
     = fold (concat_deliver (log_cleanup n1) (log_cleanup n2) log_reject log_resolve)
         (history s1 s2 later)
         ((concat_new_frame [])\<lparr> allState_c := Pair (Handle h1) (Handle h2) \<rparr>, [])"
proof -
  let ?D = "concat_deliver (log_cleanup n1) (log_cleanup n2) log_reject log_resolve"
  let ?sync = "map FromThis s1 @ map FromThat s2"
  let ?P = "Pair (Handle h1) (Handle h2)"
  have nt: "Tick \<notin> set ?sync" by auto
  have a: "snd (concat_body (fork (scripted s1 h1 n1)) (fork (scripted s2 h2 n2))
              log_reject log_resolve (concat_new_frame []))
      = (fst (fold ?D ?sync (concat_new_frame [], [])))\<lparr> allState_c := ?P \<rparr>"
    by (subst concat_body_scripted[where cT = "log_cleanup n1"
          and cU = "log_cleanup n2" and c = "[]"]) simp
  have b: "fold ?D ?sync ((concat_new_frame [])\<lparr> allState_c := ?P \<rparr>, [])
      = ((fst (fold ?D ?sync (concat_new_frame [], [])))\<lparr> allState_c := ?P \<rparr>, [])"
    by (rule concat_fold_allState[OF nt])
  have c: "cleanup (scripted s1 h1 n1) = log_cleanup n1" "cleanup (scripted s2 h2 n2) = log_cleanup n2"
    by (simp_all add: scripted_def)
  have d: "fold ?D (history s1 s2 later) ((concat_new_frame [])\<lparr> allState_c := ?P \<rparr>, [])
      = fold ?D later (fold ?D ?sync ((concat_new_frame [])\<lparr> allState_c := ?P \<rparr>, []))"
    by (simp add: history_def)
  show ?thesis unfolding concat_run_def a c d b by (rule refl)
qed

section \<open>The latch of \<open>concat\<close>\<close>


lemma concat_deliver_cases:
  obtains "ev = Tick" | st where "ev = FromThis st \<or> ev = FromThat st"
  by (cases ev) auto



lemma cleanup_pair_once:
  "snd (cleanupBoth (log_cleanup n1) (log_cleanup n2) (Pair a b) c) = c @ [(n1, a), (n2, b)]"
  by (simp add: cleanupBoth_def and_then_def log_cleanup_def)

section \<open>Settling at most once\<close>

lemma once_step:
  assumes "length (filter from_this (ev # es)) \<le> 1" "length (filter from_that (ev # es)) \<le> 1"
    and "once_inv fr (ev # es)"
  shows "once_inv (fst (ap_deliver cT cU log_reject log_resolve ev (fr, c))) es"
proof (cases ev)
  case (FromThis st)
  then show ?thesis using assms
    by (cases st) (auto simp add: once_inv_def ap_handler_defs split: option.splits)
next
  case (FromThat st)
  then show ?thesis using assms
    by (cases st) (auto simp add: once_inv_def ap_handler_defs split: option.splits)
next
  case Tick
  then show ?thesis using assms by (auto simp add: once_inv_def)
qed

lemma once_fold:
  assumes "length (filter from_this es) \<le> 1" "length (filter from_that es) \<le> 1"
    and "once_inv fr es"
  shows "length (outer (fst (fold (ap_deliver cT cU log_reject log_resolve) es (fr, c)))) \<le> 1"
  using assms
proof (induction es arbitrary: fr c)
  case Nil
  then show ?case by (auto simp add: once_inv_def)
next
  case (Cons ev es)
  let ?D = "ap_deliver cT cU log_reject log_resolve"
  have i: "once_inv (fst (?D ev (fr, c))) es"
    using Cons.prems by (rule once_step)
  have l: "length (filter from_this es) \<le> 1" "length (filter from_that es) \<le> 1"
    using Cons.prems(1,2) by (auto split: if_splits)
  have "length (outer (fst (fold ?D es (fst (?D ev (fr, c)), snd (?D ev (fr, c)))))) \<le> 1"
    using l i by (rule Cons.IH)
  then show ?case by simp
qed

lemma concat_once:
  "length (outer_c (fst (fold (concat_deliver cT cU log_reject log_resolve) es
      ((concat_new_frame [])\<lparr> allState_c := s \<rparr>, c)))) \<le> 1"
proof -
  let ?J = "\<lambda>s. (\<not> is_done (fst s) \<and> outer_c (fst s) = [])
      \<or> (is_done (fst s) \<and> length (outer_c (fst s)) = 1)"
  have "?J (fold (concat_deliver cT cU log_reject log_resolve) es
      ((concat_new_frame [])\<lparr> allState_c := s \<rparr>, c))"
  proof (rule fold_preserves[where P = ?J], goal_cases)
    case prems: (1 x s')
    show ?case
    proof (cases x rule: concat_deliver_cases)
      case 1
      then show ?thesis using prems(2) by (auto simp add: concat_deliver_tick)
    next
      case (2 st)
      show ?thesis using prems(2) by (auto simp add: concat_deliver_settle[OF 2])
    qed
  next
    case 2
    show ?case by (simp add: concat_new_frame_def)
  qed
  then show ?thesis by auto
qed

section \<open>The fork of the Task built, and the run\<close>

lemma ap_fork_is_run:
  "snd (fork (ap this that) log_reject log_resolve []) = outer (fst (ap_run this that []))"
  by (simp add: ap_def ap_run_def split: prod.splits)


lemma ap_rejected_any:
  "snd (fork (ap (Task_rejected e1) (Task_rejected e2)) reject resolve w) = snd (reject e1 w)
 \<and> snd (fork (ap Task_empty (Task_rejected e2)) reject resolve w) = snd (reject e2 w)
 \<and> snd (fork (ap (Task_rejected e1) Task_empty) reject resolve w) = snd (reject e1 w)
 \<and> snd (fork (ap (Task_rejected e1) (Task_of v)) reject resolve w) = snd (reject e1 w)
 \<and> snd (fork (ap (Task_of f) (Task_rejected e2)) reject resolve w) = snd (reject e2 w)"
  by (auto simp add: ap_def ap_body_def ap_new_frame_def and_then_def Task_rejected_def Task_empty_def
        Task_of_def guardReject_def guardResolve_def ap_outer_call_def setFunc_def setVal_def Let_def
      split: prod.splits sum.splits)


section \<open>A throw in the first input\<close>



section \<open>Sequential transformers: cleanup, run-state and the monad laws\<close>

text \<open>
  C6. Each of \<open>map\<close>, \<open>chain\<close>, \<open>orElse\<close>, \<open>rejectedMap\<close>, \<open>bimap\<close>, \<open>swap\<close>,
  \<open>fold\<close> and \<open>cata\<close> returns a Task whose cleanup is the cleanup of the underlying
  Task, and whose fork returns what the one call it makes of the underlying fork returns.
\<close>

theorem sequential_transformers_keep_cleanup_and_run_state:
  "cleanup (Task_map t f) = cleanup t
 \<and> cleanup (chain t k) = cleanup t
 \<and> cleanup (orElse t k') = cleanup t
 \<and> cleanup (rejectedMap t f') = cleanup t
 \<and> cleanup (bimap t f' g) = cleanup t
 \<and> cleanup (Task_swap t) = cleanup t
 \<and> cleanup (Task_fold t f'' g'') = cleanup t
 \<and> cleanup (cata t p) = cleanup t
 \<and> fst (fork (Task_map t f) reject resolve w)
      = fst (fork t (\<lambda>a. reject a) (\<lambda>b. resolve (f b)) w)
 \<and> fst (fork (chain t k) reject resolve w)
      = fst (fork t (\<lambda>a. reject a) (\<lambda>b. fork (k b) reject resolve) w)
 \<and> fst (fork (orElse t k') reject' resolve' w)
      = fst (fork t (\<lambda>a. fork (k' a) reject' resolve') (\<lambda>b. resolve' b) w)
 \<and> fst (fork (rejectedMap t f') reject'' resolve' w)
      = fst (fork t (\<lambda>a. reject'' (f' a)) (\<lambda>b. resolve' b) w)
 \<and> fst (fork (bimap t f' g) reject'' resolve'' w)
      = fst (fork t (\<lambda>a. reject'' (f' a)) (\<lambda>b. resolve'' (g b)) w)
 \<and> fst (fork (Task_swap t) reject3 resolve3 w)
      = fst (fork t (\<lambda>a. resolve3 a) (\<lambda>b. reject3 b) w)
 \<and> fst (fork (Task_fold t f'' g'') reject4 resolve4 w)
      = fst (fork t (\<lambda>a. resolve4 (f'' a)) (\<lambda>b. resolve4 (g'' b)) w)
 \<and> fst (fork (cata t p) reject4 resolve4 w)
      = fst (fork t (\<lambda>a. resolve4 (Rejected p a)) (\<lambda>b. resolve4 (Resolved p b)) w)"
  by (simp add: Task_map_def chain_def orElse_def rejectedMap_def bimap_def Task_swap_def
        Task_fold_def cata_def)

text \<open>
  C8. The monad laws, on the fork: \<open>Task.of(v).chain(f)\<close> forked with any two
  continuations does what \<open>f(v)\<close> forked with them does, and \<open>t.chain(Task.of)\<close> does
  what \<open>t\<close> does; so each settles on the same channel with the same value.
\<close>

theorem chain_monad_laws:
  "fork (chain (Task_of v) f) reject resolve = fork (f v) reject resolve
 \<and> fork (chain t Task_of) reject resolve = fork t reject resolve"
  by (simp add: chain_def Task_of_def)

section \<open>Parallel join, race and the N-ary combinators\<close>

text \<open>
  C1. When \<open>this\<close> succeeds with \<open>f\<close> and \<open>that\<close> succeeds with \<open>v\<close>, each exactly
  once and nothing else, then whichever arrives first, within the fork calls or later,
  and wherever the delayed closures run in between, \<open>this.ap(that)\<close> calls its success
  continuation with \<open>f v\<close> and calls nothing else; as long as only one of the two has
  arrived it has called nothing. \<open>Task.of(x => x + 1).ap(Task.of(41))\<close> resolves to 42.
\<close>

theorem ap_joins_two_successes:
  "(filter (\<lambda>x. x \<noteq> Tick) (history s1 s2 later) = [FromThis (Success f), FromThat (Success v)]
     \<or> filter (\<lambda>x. x \<noteq> Tick) (history s1 s2 later) = [FromThat (Success v), FromThis (Success f)]
    \<longrightarrow> outer (fst (ap_run (scripted s1 h1 n1) (scripted s2 h2 n2) later)) = [Success (f v)])
 \<and> (filter (\<lambda>x. x \<noteq> Tick) (history s1 s2 later) = [FromThis (Success f)]
     \<or> filter (\<lambda>x. x \<noteq> Tick) (history s1 s2 later) = [FromThat (Success v)]
     \<or> filter (\<lambda>x. x \<noteq> Tick) (history s1 s2 later) = []
    \<longrightarrow> outer (fst (ap_run (scripted s1 h1 n1) (scripted s2 h2 n2) later)) = [])
 \<and> outer (fst (ap_run (Task_of f) (Task_of v) [])) = [Success (f v)]
 \<and> outer (fst (ap_run (Task_of f) (scripted [] h2 n2) [FromThat (Success v)])) = [Success (f v)]
 \<and> outer (fst (ap_run (scripted [] h1 n1) (Task_of v) [FromThis (Success f)])) = [Success (f v)]
 \<and> snd (fork (ap (Task_of (\<lambda>x. x + 1)) (Task_of (41 :: int))) log_reject log_resolve [])
      = [Success 42]"
proof -
  let ?R = "outer (fst (ap_run (scripted s1 h1 n1) (scripted s2 h2 n2) later))"
  let ?h = "filter (\<lambda>x. x \<noteq> Tick) (history s1 s2 later)"
  have R: "?R = outer (fst (fold (ap_deliver (log_cleanup n1) (log_cleanup n2) log_reject log_resolve)
      ?h ((ap_new_frame [])\<lparr> allState := Pair (Handle h1) (Handle h2) \<rparr>, [])))"
    by (simp only: ap_run_scripted outer_without_ticks[symmetric])
  have a: "?h = [FromThis (Success f), FromThat (Success v)] \<Longrightarrow> ?R = [Success (f v)]"
    unfolding R by (simp add: ap_new_frame_def ap_handler_defs)
  have b: "?h = [FromThat (Success v), FromThis (Success f)] \<Longrightarrow> ?R = [Success (f v)]"
    unfolding R by (simp add: ap_new_frame_def ap_handler_defs)
  have c: "?h = [FromThis (Success f)] \<Longrightarrow> ?R = []"
    unfolding R by (simp add: ap_new_frame_def ap_handler_defs)
  have d: "?h = [FromThat (Success v)] \<Longrightarrow> ?R = []"
    unfolding R by (simp add: ap_new_frame_def ap_handler_defs)
  have e: "?h = [] \<Longrightarrow> ?R = []"
    unfolding R by (simp add: ap_new_frame_def ap_handler_defs)
  have rest: "outer (fst (ap_run (Task_of f) (Task_of v) [])) = [Success (f v)]
 \<and> outer (fst (ap_run (Task_of f) (scripted [] h2 n2) [FromThat (Success v)])) = [Success (f v)]
 \<and> outer (fst (ap_run (scripted [] h1 n1) (Task_of v) [FromThis (Success f)])) = [Success (f v)]
 \<and> snd (fork (ap (Task_of (\<lambda>x. x + 1)) (Task_of (41 :: int))) log_reject log_resolve [])
      = [Success 42]"
    by (simp add: run_defs ap_def)
  show ?thesis using a b c d e rest by blast
qed

text \<open>
  C1 at a concrete run: \<open>that\<close> succeeds with 41 within its fork, \<open>this\<close> succeeds later
  with the successor function.
\<close>

theorem ap_joins_two_successes_witness:
  "outer (fst (ap_run (scripted ([] :: (unit, int \<Rightarrow> int) settlement list) (1::nat) ''this'')
      (scripted [Success (41::int)] (2::nat) ''that'')
      [Tick, FromThis (Success (\<lambda>x. x + 1)), Tick])) = [Success 42]"
  using ap_joins_two_successes[where ?s1.0 = "[] :: (unit, int \<Rightarrow> int) settlement list"
      and ?s2.0 = "[Success (41::int)]"
      and later = "[Tick, FromThis (Success (\<lambda>x. x + 1)), Tick]"
      and f = "\<lambda>x. x + 1" and v = 41 and ?h1.0 = "1::nat" and ?n1.0 = "''this''"
      and ?h2.0 = "2::nat" and ?n2.0 = "''that''"]
  by (auto simp add: history_def)

text \<open>
  C2. The first failure to arrive from either input of \<open>ap\<close> is passed to the failure
  continuation, and nothing that arrives after it, from either input, is passed on. If
  the two inputs had not both succeeded before it, that failure is the only call the fork
  ever makes. This holds of the run followed over later turns, and of the fork of the Task
  \<open>this.ap(that)\<close> itself when everything happens within the fork calls. Forked with any
  two continuations, \<open>rejected(e1).ap(rejected(e2))\<close> does to their state what the failure
  continuation does with \<open>e1\<close>, and so does \<open>ap\<close> with one failing input beside an input
  that succeeds or never settles, on either side.
\<close>

theorem ap_first_failure_wins:
  assumes h: "history s1 s2 later = pre @ ev # post"
    and nofail: "\<forall>a. FromThis (Failure a) \<notin> set pre \<and> FromThat (Failure a) \<notin> set pre"
    and ev: "ev = FromThis (Failure e) \<or> ev = FromThat (Failure e)"
  shows "(\<exists>vs. outer (fst (ap_run (scripted s1 h1 n1) (scripted s2 h2 n2) later))
            = map Success vs @ [Failure e])
    \<and> ((\<forall>f. FromThis (Success f) \<notin> set pre) \<or> (\<forall>v. FromThat (Success v) \<notin> set pre)
        \<longrightarrow> outer (fst (ap_run (scripted s1 h1 n1) (scripted s2 h2 n2) later)) = [Failure e])
    \<and> outer (fst (ap_run (Task_rejected e1) (Task_rejected e2) [])) = [Failure e1]
    \<and> (later = [] \<longrightarrow>
         (\<exists>vs. snd (fork (ap (scripted s1 h1 n1) (scripted s2 h2 n2)) log_reject log_resolve [])
            = map Success vs @ [Failure e]))
    \<and> (later = []
         \<and> ((\<forall>f. FromThis (Success f) \<notin> set pre) \<or> (\<forall>v. FromThat (Success v) \<notin> set pre))
        \<longrightarrow> snd (fork (ap (scripted s1 h1 n1) (scripted s2 h2 n2)) log_reject log_resolve [])
            = [Failure e])
    \<and> snd (fork (ap (Task_rejected e1) (Task_rejected e2)) reject resolve w) = snd (reject e1 w)
    \<and> snd (fork (ap Task_empty (Task_rejected e2)) reject resolve w) = snd (reject e2 w)
    \<and> snd (fork (ap (Task_rejected e1) Task_empty) reject resolve w) = snd (reject e1 w)
    \<and> snd (fork (ap (Task_rejected e1) (Task_of y)) reject resolve w) = snd (reject e1 w)
    \<and> snd (fork (ap (Task_of g) (Task_rejected e2)) reject resolve w) = snd (reject e2 w)"
proof -
  let ?D = "ap_deliver (log_cleanup n1) (log_cleanup n2) log_reject log_resolve"
  let ?fr0 = "(ap_new_frame [])\<lparr> allState := Pair (Handle h1) (Handle h2) \<rparr>"
  let ?A = "fold ?D pre (?fr0, [])"
  let ?B = "?D ev (fst ?A, snd ?A)"
  let ?R = "ap_run (scripted s1 h1 n1) (scripted s2 h2 n2) later"
  let ?F = "snd (fork (ap (scripted s1 h1 n1) (scripted s2 h2 n2)) log_reject log_resolve [])"
  have R: "?R = fold ?D post (fst ?B, snd ?B)"
    by (simp add: ap_run_scripted h)
  have A: "\<not> rejected (fst ?A) \<and> (\<exists>vs. outer (fst ?A) = map Success vs)"
    by (rule fold_unrejected) (use nofail in \<open>simp_all add: fresh_frame\<close>)
  then obtain vs where vs: "outer (fst ?A) = map Success vs" by blast
  have B: "rejected (fst ?B) \<and> outer (fst ?B) = outer (fst ?A) @ [Failure e]"
    using A by (simp add: failure_step[OF ev])
  have "rejected (fst (fold ?D post (fst ?B, snd ?B)))
       \<and> outer (fst (fold ?D post (fst ?B, snd ?B))) = outer (fst ?A) @ [Failure e]"
    using B by (rule fold_rejected_outer)
  then have out: "outer (fst ?R) = outer (fst ?A) @ [Failure e]" using R by simp
  have first: "\<exists>vs. outer (fst ?R) = map Success vs @ [Failure e]" using out vs by auto
  have second: "outer (fst ?R) = [Failure e]"
    if "(\<forall>f. FromThis (Success f) \<notin> set pre) \<or> (\<forall>v. FromThat (Success v) \<notin> set pre)"
    using that
  proof
    assume nf: "\<forall>f. FromThis (Success f) \<notin> set pre"
    have "\<not> rejected (fst ?A) \<longrightarrow> outer (fst ?A) = []"
      using fold_func_missing[where fr = ?fr0 and es = pre and c = "[]"
          and cT = "log_cleanup n1" and cU = "log_cleanup n2"] nf
      by (simp add: fresh_frame)
    then show ?thesis using A out by simp
  next
    assume nv: "\<forall>v. FromThat (Success v) \<notin> set pre"
    have "\<not> rejected (fst ?A) \<longrightarrow> outer (fst ?A) = []"
      using fold_val_missing[where fr = ?fr0 and es = pre and c = "[]"
          and cT = "log_cleanup n1" and cU = "log_cleanup n2"] nv
      by (simp add: fresh_frame)
    then show ?thesis using A out by simp
  qed
  have third: "outer (fst (ap_run (Task_rejected e1) (Task_rejected e2) [])) = [Failure e1]"
    by (simp add: run_defs)
  have link: "later = [] \<Longrightarrow> ?F = outer (fst ?R)"
    by (simp add: ap_fork_is_run)
  have fourth: "later = [] \<longrightarrow> (\<exists>vs. ?F = map Success vs @ [Failure e])"
    using first link by auto
  have fifth: "later = []
         \<and> ((\<forall>f. FromThis (Success f) \<notin> set pre) \<or> (\<forall>v. FromThat (Success v) \<notin> set pre))
        \<longrightarrow> ?F = [Failure e]"
    using second link by auto
  have any: "snd (fork (ap (Task_rejected e1) (Task_rejected e2)) reject resolve w) = snd (reject e1 w)
    \<and> snd (fork (ap Task_empty (Task_rejected e2)) reject resolve w) = snd (reject e2 w)
    \<and> snd (fork (ap (Task_rejected e1) Task_empty) reject resolve w) = snd (reject e1 w)
    \<and> snd (fork (ap (Task_rejected e1) (Task_of y)) reject resolve w) = snd (reject e1 w)
    \<and> snd (fork (ap (Task_of g) (Task_rejected e2)) reject resolve w) = snd (reject e2 w)"
    by (rule ap_rejected_any)
  show ?thesis using first second third fourth fifth any by blast
qed

text \<open>
  C2 at a concrete run: both inputs fail within their fork calls; once followed by a later
  turn of the host, once as the fork of the Task \<open>this.ap(that)\<close>.
\<close>

theorem ap_first_failure_wins_witness:
  "outer (fst (ap_run (scripted ([Failure (1::nat)] :: (nat, int \<Rightarrow> int) settlement list) (1::nat) ''this'')
      (scripted ([Failure 2] :: (nat, int) settlement list) (2::nat) ''that'') [Tick])) = [Failure 1]
 \<and> snd (fork (ap (scripted ([Failure (1::nat)] :: (nat, int \<Rightarrow> int) settlement list) (1::nat) ''this'')
      (scripted ([Failure 2] :: (nat, int) settlement list) (2::nat) ''that''))
      log_reject log_resolve []) = [Failure 1]"
  using ap_first_failure_wins[where ?s1.0 = "[Failure (1::nat)] :: (nat, int \<Rightarrow> int) settlement list"
      and ?s2.0 = "[Failure 2] :: (nat, int) settlement list" and later = "[Tick]"
      and pre = "[]" and ev = "FromThis (Failure 1)" and post = "[FromThat (Failure 2), Tick]"
      and e = 1 and ?h1.0 = "1::nat" and ?n1.0 = "''this''" and ?h2.0 = "2::nat" and ?n2.0 = "''that''"
      and ?e1.0 = "1::nat" and ?e2.0 = "2::nat" and reject = log_reject and resolve = log_resolve
      and w = "[] :: (nat, int) settlement list" and y = "1::int" and g = "\<lambda>x::int. x + 1"]
    ap_first_failure_wins[where ?s1.0 = "[Failure (1::nat)] :: (nat, int \<Rightarrow> int) settlement list"
      and ?s2.0 = "[Failure 2] :: (nat, int) settlement list" and later = "[]"
      and pre = "[]" and ev = "FromThis (Failure 1)" and post = "[FromThat (Failure 2)]"
      and e = 1 and ?h1.0 = "1::nat" and ?n1.0 = "''this''" and ?h2.0 = "2::nat" and ?n2.0 = "''that''"
      and ?e1.0 = "1::nat" and ?e2.0 = "2::nat" and reject = log_reject and resolve = log_resolve
      and w = "[] :: (nat, int) settlement list" and y = "1::int" and g = "\<lambda>x::int. x + 1"]
  by (auto simp add: history_def)

text \<open>
  C3. \<open>map2\<close> on \<open>Task.of(a1)\<close> and \<open>Task.of(a2)\<close> resolves to \<open>f(a1, a2)\<close>. \<open>map3\<close>
  on \<open>Task.of(1)\<close>, \<open>Task.of(2)\<close>, \<open>Task.of(3)\<close> does not resolve to \<open>f(1, 2, 3)\<close>: its
  fork throws the \<open>ReferenceError\<close> for \<open>par2\<close> and calls neither continuation.
\<close>

theorem mapN_arity:
  "snd (fork (map2 (Task_of a1) f (Task_of a2)) log_reject log_resolve []) = [Success (f a1 a2)]
 \<and> fork (map3 (Task_of (1::int)) (\<lambda>a b c. a + b + c) (Task_of (2::int)) (Task_of (3::int)))
      log_reject log_resolve []
    = (Inl (ReferenceError ''par2 is not defined''), [])"
  by (simp add: map2_def map3_def par2_def ap_def run_defs raise_def)

text \<open>
  C4 fails for \<open>ap\<close>: the latch of \<open>ap\<close> is set by a failure only. When \<open>this\<close> has
  succeeded and \<open>that\<close> calls its success continuation twice, the fork of
  \<open>this.ap(that)\<close> calls its own success continuation twice.
\<close>

theorem ap_double_success_counterexample:
  "outer (fst (ap_run (scripted [Success (\<lambda>x. x + 1)] (1::nat) ''this'')
      (scripted [Success (1::int), Success 2] (2::nat) ''that'') []))
   = [Success 2, Success 3 :: (unit, int) settlement]"
  by (simp add: run_defs log_cleanup_def)

text \<open>
  C4, amended. The fork of \<open>this.concat(that)\<close> calls its continuations at most once in
  all, whatever its inputs do and however often. The fork of \<open>this.ap(that)\<close> calls its
  continuations at most once in all when each input calls its own continuations at most
  once.
\<close>

theorem composed_fork_settles_at_most_once:
  "length (outer_c (fst (concat_run (scripted s1 h1 n1) (scripted s2 h2 n2) later))) \<le> 1
 \<and> (length (filter from_this (history t1 t2 later')) \<le> 1
      \<and> length (filter from_that (history t1 t2 later')) \<le> 1
    \<longrightarrow> length (outer (fst (ap_run (scripted t1 k1 m1) (scripted t2 k2 m2) later'))) \<le> 1)"
proof -
  have a: "length (outer_c (fst (concat_run (scripted s1 h1 n1) (scripted s2 h2 n2) later))) \<le> 1"
    by (simp only: concat_run_scripted concat_once)
  have b: "length (outer (fst (ap_run (scripted t1 k1 m1) (scripted t2 k2 m2) later'))) \<le> 1"
    if "length (filter from_this (history t1 t2 later')) \<le> 1"
      and "length (filter from_that (history t1 t2 later')) \<le> 1"
    unfolding ap_run_scripted
    by (rule once_fold[OF that]) (simp add: once_inv_def ap_new_frame_def)
  show ?thesis using a b by blast
qed

text \<open>
  C4, amended, at a concrete run of \<open>ap\<close>: \<open>this\<close> succeeds within its fork, \<open>that\<close>
  fails later.
\<close>

theorem composed_fork_settles_at_most_once_witness:
  "length (filter from_this (history [Success (\<lambda>x::int. x + 1)] ([] :: (nat, int) settlement list)
      [FromThat (Failure 3), Tick])) \<le> 1
 \<and> length (filter from_that (history [Success (\<lambda>x::int. x + 1)] ([] :: (nat, int) settlement list)
      [FromThat (Failure 3), Tick])) \<le> 1
 \<and> length (outer (fst (ap_run (scripted [Success (\<lambda>x::int. x + 1)] (1::nat) ''this'')
      (scripted ([] :: (nat, int) settlement list) (2::nat) ''that'')
      [FromThat (Failure 3), Tick]))) \<le> 1"
  using composed_fork_settles_at_most_once[where ?t1.0 = "[Success (\<lambda>x::int. x + 1)]"
      and ?t2.0 = "[] :: (nat, int) settlement list" and later' = "[FromThat (Failure 3), Tick]"
      and ?k1.0 = "1::nat" and ?m1.0 = "''this''" and ?k2.0 = "2::nat" and ?m2.0 = "''that''"
      and ?s1.0 = "[] :: (nat, int) settlement list" and ?s2.0 = "[]" and later = "[]"
      and ?h1.0 = "1::nat" and ?n1.0 = "''this''" and ?h2.0 = "2::nat" and ?n2.0 = "''that''"]
  by (auto simp add: history_def)



text \<open>
  C7. When a failure arrives from either input of \<open>ap\<close> before both inputs have succeeded,
  then whatever arrives afterwards and whenever the host runs its delayed closures, no
  cleanup closure is ever scheduled and neither input's cleanup is ever called.
\<close>

theorem ap_failure_path_runs_no_cleanup:
  assumes h: "history s1 s2 later = pre @ ev # post"
    and ev: "ev = FromThis (Failure e) \<or> ev = FromThat (Failure e)"
    and early: "(\<forall>f. FromThis (Success f) \<notin> set pre) \<or> (\<forall>v. FromThat (Success v) \<notin> set pre)"
  shows "snd (ap_run (scripted s1 h1 n1) (scripted s2 h2 n2) later) = []
       \<and> scheduled (fst (ap_run (scripted s1 h1 n1) (scripted s2 h2 n2) later)) = 0"
proof -
  let ?D = "ap_deliver (log_cleanup n1) (log_cleanup n2) log_reject log_resolve"
  let ?fr0 = "(ap_new_frame [])\<lparr> allState := Pair (Handle h1) (Handle h2) \<rparr>"
  let ?A = "fold ?D pre (?fr0, [])"
  let ?B = "?D ev (fst ?A, snd ?A)"
  let ?R = "ap_run (scripted s1 h1 n1) (scripted s2 h2 n2) later"
  have R: "?R = fold ?D post (fst ?B, snd ?B)"
    by (simp add: ap_run_scripted h)
  have A: "scheduled (fst ?A) = 0 \<and> snd ?A = []"
    using early
  proof
    assume nf: "\<forall>f. FromThis (Success f) \<notin> set pre"
    show ?thesis
      using fold_func_missing[where fr = ?fr0 and es = pre and c = "[]"
          and cT = "log_cleanup n1" and cU = "log_cleanup n2"] nf
      by (simp add: fresh_frame)
  next
    assume nv: "\<forall>v. FromThat (Success v) \<notin> set pre"
    show ?thesis
      using fold_val_missing[where fr = ?fr0 and es = pre and c = "[]"
          and cT = "log_cleanup n1" and cU = "log_cleanup n2"] nv
      by (simp add: fresh_frame)
  qed
  have B: "rejected (fst ?B) \<and> outer (fst ?B) = outer (fst ?B) \<and> scheduled (fst ?B) = 0"
    and B2: "snd ?B = []"
    using A by (simp_all add: failure_step[OF ev])
  have "(rejected (fst (fold ?D post (fst ?B, snd ?B)))
      \<and> outer (fst (fold ?D post (fst ?B, snd ?B))) = outer (fst ?B)
      \<and> scheduled (fst (fold ?D post (fst ?B, snd ?B))) = 0)
      \<and> snd (fold ?D post (fst ?B, snd ?B)) = snd ?B"
    using B by (rule fold_rejected)
  then show ?thesis using R B2 by simp
qed

text \<open>
  C7 at a concrete run: \<open>this\<close> fails within its fork, \<open>that\<close> succeeds later, then the
  host runs its delayed closures.
\<close>

theorem ap_failure_path_runs_no_cleanup_witness:
  "snd (ap_run (scripted ([Failure (1::nat)] :: (nat, int \<Rightarrow> int) settlement list) (1::nat) ''this'')
      (scripted ([] :: (nat, int) settlement list) (2::nat) ''that'')
      [FromThat (Success 41), Tick]) = []
 \<and> scheduled (fst (ap_run (scripted ([Failure (1::nat)] :: (nat, int \<Rightarrow> int) settlement list) (1::nat) ''this'')
      (scripted ([] :: (nat, int) settlement list) (2::nat) ''that'')
      [FromThat (Success 41), Tick])) = 0"
  using ap_failure_path_runs_no_cleanup[where ?s1.0 = "[Failure (1::nat)] :: (nat, int \<Rightarrow> int) settlement list"
      and ?s2.0 = "[] :: (nat, int) settlement list" and later = "[FromThat (Success 41), Tick]"
      and pre = "[]" and ev = "FromThis (Failure 1)" and post = "[FromThat (Success 41), Tick]"
      and e = 1 and ?h1.0 = "1::nat" and ?n1.0 = "''this''" and ?h2.0 = "2::nat" and ?n2.0 = "''that''"]
  by (auto simp add: history_def)




text \<open>
  C10. In a run of \<open>this.concat(that)\<close>, whatever the two inputs do and whenever the host
  runs its delayed closures: either no cleanup has been called and at most one cleanup
  closure is pending, or each input's cleanup has been called exactly once, with that
  input's run-state, and no closure is pending.
\<close>

theorem concat_schedules_cleanup_at_most_once:
  "(snd (concat_run (scripted s1 h1 n1) (scripted s2 h2 n2) later) = []
      \<and> scheduled_c (fst (concat_run (scripted s1 h1 n1) (scripted s2 h2 n2) later)) \<le> 1)
 \<or> (snd (concat_run (scripted s1 h1 n1) (scripted s2 h2 n2) later)
        = [(n1, Handle h1), (n2, Handle h2)]
      \<and> scheduled_c (fst (concat_run (scripted s1 h1 n1) (scripted s2 h2 n2) later)) = 0)"
proof -
  let ?D = "concat_deliver (log_cleanup n1) (log_cleanup n2) log_reject log_resolve"
  let ?P = "Pair (Handle h1) (Handle h2)"
  let ?s0 = "((concat_new_frame [])\<lparr> allState_c := ?P \<rparr>, [])"
  let ?J = "\<lambda>s. allState_c (fst s) = ?P \<and>
      ((\<not> is_done (fst s) \<and> scheduled_c (fst s) = 0 \<and> snd s = [])
     \<or> (is_done (fst s) \<and> scheduled_c (fst s) = Suc 0 \<and> snd s = [])
     \<or> (is_done (fst s) \<and> scheduled_c (fst s) = 0 \<and> snd s = [(n1, Handle h1), (n2, Handle h2)]))"
  have "?J (fold ?D (history s1 s2 later) ?s0)"
  proof (rule fold_preserves[where P = ?J], goal_cases)
    case prems: (1 x s)
    show ?case
    proof (cases x rule: concat_deliver_cases)
      case 1
      then show ?thesis using prems(2)
        by (auto simp add: concat_deliver_tick cleanup_pair_once)
    next
      case (2 st)
      show ?thesis using prems(2)
        by (auto simp add: concat_deliver_settle[OF 2])
    qed
  next
    case 2
    show ?case by (simp add: concat_new_frame_def)
  qed
  then show ?thesis by (auto simp add: concat_run_scripted)
qed

end
